theory Spec2Isabelle
  imports Main
begin

section \<open>Project 1: the XO game (XO\_Game.py)\<close>

subsection \<open>The board dictionary\<close>

text \<open>
  A cell of the board holds one of the strings \<^verbatim>\<open>' '\<close> (\<open>Blank\<close>), \<^verbatim>\<open>'X'\<close> (\<open>Cross\<close>) and
  \<^verbatim>\<open>'0'\<close> (\<open>Nought\<close>).
\<close>

datatype mark = Blank | Cross | Nought

text \<open>
  The board is a Python \<^verbatim>\<open>dict\<close> from cell numbers to marks. A dict iterates in
  insertion order and an assignment to a key it already has keeps the key's place, so
  the dict is an association list in insertion order. Its keys are distinct.
\<close>

type_synonym board_dict = "(int \<times> mark) list"

text \<open>\<^verbatim>\<open>d[k] = v\<close>: overwrite in place, or append a new key.\<close>

fun dict_set :: "('k \<times> 'v) list \<Rightarrow> 'k \<Rightarrow> 'v \<Rightarrow> ('k \<times> 'v) list" where
  "dict_set [] k v = [(k, v)]"
| "dict_set (kv # kvs) k v =
     (if fst kv = k then (k, v) # kvs else kv # dict_set kvs k v)"

text \<open>
  \<^verbatim>\<open>get_board\<close>: \<^verbatim>\<open>for c in range(1, 10): board[c] = " "\<close>, on the global dict.
\<close>

definition get_board :: "board_dict \<Rightarrow> board_dict" where
  "get_board board = fold (\<lambda>c b. dict_set b c Blank) [1..9] board"

text \<open>\<^verbatim>\<open>[x[0] for x in list(board_mask.items()) if x[1] == ' ']\<close>\<close>

definition get_empty_cells :: "board_dict \<Rightarrow> int list" where
  "get_empty_cells board_mask = map fst (filter (\<lambda>x. snd x = Blank) board_mask)"

subsection \<open>The win check\<close>

definition win_lines :: "int list list" where
  "win_lines =
     [[1, 2, 3], [4, 5, 6], [7, 8, 9],
      [1, 4, 7], [2, 5, 8], [3, 6, 9],
      [1, 5, 9], [3, 5, 7]]"

text \<open>
  \<^verbatim>\<open>x_cells\<close> and \<^verbatim>\<open>o_cells\<close> are the sets of keys holding each mark; the loop returns
  \<^verbatim>\<open>True\<close> at the first line whose intersection with one of them has three elements.
\<close>

definition get_winning :: "board_dict \<Rightarrow> bool" where
  "get_winning board_mask =
     (let x_cells = set (map fst (filter (\<lambda>x. snd x = Cross) board_mask));
          o_cells = set (map fst (filter (\<lambda>x. snd x = Nought) board_mask))
      in list_ex (\<lambda>line. card (x_cells \<inter> set line) = 3 \<or> card (o_cells \<inter> set line) = 3)
           win_lines)"

subsection \<open>The minimax search\<close>

text \<open>
  Scores are the integers -10, 0 and 10 and the two floats \<^verbatim>\<open>-float('Inf')\<close> and
  \<^verbatim>\<open>float('Inf')\<close> the running best starts from.
\<close>

datatype score = NegInf | Fin int | PosInf

text \<open>Python's \<^verbatim>\<open>a > b\<close> and \<^verbatim>\<open>a < b\<close> on these values.\<close>

fun gt :: "score \<Rightarrow> score \<Rightarrow> bool" where
  "gt NegInf b = False"
| "gt (Fin a) NegInf = True"
| "gt (Fin a) (Fin b) = (a > b)"
| "gt (Fin a) PosInf = False"
| "gt PosInf PosInf = False"
| "gt PosInf b = True"

definition lt :: "score \<Rightarrow> score \<Rightarrow> bool" where
  "lt a b = gt b a"

text \<open>
  The second component of the result: \<^verbatim>\<open>None\<close> at a terminal position, the empty string
  \<^verbatim>\<open>''\<close> the loop starts from, or a cell number.
\<close>

datatype move = MNone | MUnset | MCell int

text \<open>
  \<^verbatim>\<open>players[0]['sign']\<close> and \<^verbatim>\<open>players[1]['sign']\<close>, drawn by \<^verbatim>\<open>cast_lots\<close>. The search
  indexes \<^verbatim>\<open>players\<close> with the flag \<^verbatim>\<open>player\<close>: \<^verbatim>\<open>True\<close> is the key 1 and \<^verbatim>\<open>False\<close> the
  key 0.
\<close>

type_synonym signs = "mark \<times> mark"

definition cast_lots :: "int \<Rightarrow> int \<Rightarrow> signs" where
  "cast_lots player_one player_two = (if player_one > player_two then (Cross, Nought) else (Nought, Cross))"

definition sign_of :: "signs \<Rightarrow> bool \<Rightarrow> mark" where
  "sign_of players player = (if player then snd players else fst players)"

type_synonym search_result = "(score \<times> move) \<times> board_dict"

text \<open>
  The loop \<^verbatim>\<open>for cell in get_empty_cells(board_mask)\<close> of \<^verbatim>\<open>get_best_move\<close>. The list of
  cells is computed once, before the loop; the board is the one mutable dict, threaded
  through every trial: the mark is placed, the recursive call \<open>rec_call\<close> runs on the
  marked board and hands the board back, and the cell is set to \<^verbatim>\<open>' '\<close> again.
\<close>

fun trial_loop ::
  "(board_dict \<Rightarrow> bool \<Rightarrow> search_result option) \<Rightarrow> signs \<Rightarrow> bool \<Rightarrow> int list \<Rightarrow>
   score \<Rightarrow> move \<Rightarrow> board_dict \<Rightarrow> search_result option" where
  "trial_loop rec_call players player [] best_score best_move board_mask =
     Some ((best_score, best_move), board_mask)"
| "trial_loop rec_call players player (cell # cells) best_score best_move board_mask =
     (case rec_call (dict_set board_mask cell (sign_of players player)) (\<not> player) of
        None \<Rightarrow> None
      | Some ((res, m), board1) \<Rightarrow>
          (let board2 = dict_set board1 cell Blank in
           if player \<and> gt res best_score
           then trial_loop rec_call players player cells res (MCell cell) board2
           else if \<not> player \<and> lt res best_score
           then trial_loop rec_call players player cells res (MCell cell) board2
           else trial_loop rec_call players player cells best_score best_move board2))"

text \<open>
  \<^verbatim>\<open>get_best_move(board_mask, player)\<close>. The recursion of the source has no bound of its
  own, so the first argument counts the calls that may still be nested: with none left
  the result is \<open>None\<close>. The result carries the board as the call leaves it.
\<close>

primrec get_best_move :: "nat \<Rightarrow> signs \<Rightarrow> board_dict \<Rightarrow> bool \<Rightarrow> search_result option" where
  "get_best_move 0 players board_mask player = None"
| "get_best_move (Suc n) players board_mask player =
     (let rm_cells = get_empty_cells board_mask;
          game_over = get_winning board_mask
      in if game_over \<and> player then Some ((Fin (- 10), MNone), board_mask)
         else if game_over \<and> \<not> player then Some ((Fin 10, MNone), board_mask)
         else if rm_cells = [] then Some ((Fin 0, MNone), board_mask)
         else trial_loop (get_best_move n players) players player
                (get_empty_cells board_mask)
                (if player then NegInf else PosInf) MUnset board_mask)"

text \<open>The score of the trial at one cell, as the loop of a call with \<open>Suc n\<close> sees it.\<close>

definition trial_score :: "nat \<Rightarrow> signs \<Rightarrow> board_dict \<Rightarrow> bool \<Rightarrow> int \<Rightarrow> int option" where
  "trial_score n players board_mask player cell =
     (case get_best_move n players (dict_set board_mask cell (sign_of players player))
             (\<not> player) of
        Some ((Fin v, m), b) \<Rightarrow> Some v
      | _ \<Rightarrow> None)"

text \<open>A line is owned by a mark when each of its cells holds that mark.\<close>

definition owns :: "board_dict \<Rightarrow> mark \<Rightarrow> int list \<Rightarrow> bool" where
  "owns board_mask s line = list_all (\<lambda>c. (c, s) \<in> set board_mask) line"

text \<open>
  The loop of \<^verbatim>\<open>get_best_move\<close> read as a function of the trial scores alone: \<open>better\<close> is
  the comparison that replaces the running best (\<^verbatim>\<open>res > best_score\<close> for \<^verbatim>\<open>player\<close>,
  \<^verbatim>\<open>res < best_score\<close> otherwise), \<open>pick\<close> the running best after a list of cells, and
  \<open>trial_res\<close> the score the recursive call gives at one cell.
\<close>

definition better :: "bool \<Rightarrow> score \<Rightarrow> score \<Rightarrow> bool" where
  "better player r s = (if player then gt r s else lt r s)"

fun pick :: "bool \<Rightarrow> (int \<Rightarrow> score) \<Rightarrow> int list \<Rightarrow> score \<times> move \<Rightarrow> score \<times> move" where
  "pick player val [] acc = acc"
| "pick player val (cell # cells) acc =
     (if better player (val cell) (fst acc) then pick player val cells (val cell, MCell cell)
      else pick player val cells acc)"

definition trial_res ::
  "(board_dict \<Rightarrow> bool \<Rightarrow> search_result option) \<Rightarrow> signs \<Rightarrow> board_dict \<Rightarrow> bool \<Rightarrow> int \<Rightarrow> score"
  where
  "trial_res rec_call players b p c =
     (case rec_call (dict_set b c (sign_of players p)) (\<not> p) of
        Some ((res, m), b') \<Rightarrow> res
      | None \<Rightarrow> NegInf)"

definition init_best :: "bool \<Rightarrow> score" where
  "init_best p = (if p then NegInf else PosInf)"

text \<open>
  A position with three empty cells, 3, 6 and 9: the noughts win at once at 3 and at 6,
  and lose after 9.
\<close>

definition tie_board :: board_dict where
  "tie_board = [(1, Cross), (2, Cross), (3, Blank), (4, Nought), (5, Nought), (6, Blank),
        (7, Nought), (8, Cross), (9, Blank)]"

section \<open>Project 2: the sea battle game (Sea\_Battle\_Game.py)\<close>

subsection \<open>Cells, ships and exceptions\<close>

datatype error =
    BoardOutsideException
  | OccupiedCellException
  | CoordinateTypeException
  | BoardSizeException
  | WrongPositionShipException
  | ValueError

text \<open>\<^verbatim>\<open>class Cell\<close>: two integers, compared field by field (\<^verbatim>\<open>__eq__\<close>).\<close>

datatype cell = Cell (row: int) (column: int)

text \<open>
  \<^verbatim>\<open>class Ship\<close>. The field \<^verbatim>\<open>length\<close> is \<open>length_ship\<close> here; \<^verbatim>\<open>orientation\<close> is the integer
  the source tests for truth (0 horizontal, anything else vertical).
\<close>

record ship =
  coord :: cell
  length_ship :: int
  orientation :: int
  health :: int

definition Ship :: "cell \<Rightarrow> int \<Rightarrow> int \<Rightarrow> ship" where
  "Ship c l d = \<lparr>coord = c, length_ship = l, orientation = d, health = l\<rparr>"

text \<open>The property \<^verbatim>\<open>Ship.cells\<close>: one cell for each \<^verbatim>\<open>cell in range(self.length)\<close>.\<close>

definition cells :: "ship \<Rightarrow> cell list" where
  "cells s =
     map (\<lambda>k. if orientation s \<noteq> 0
              then Cell (row (coord s) + k) (column (coord s))
              else Cell (row (coord s)) (column (coord s) + k))
       [0..length_ship s - 1]"

subsection \<open>The board\<close>

text \<open>
  The symbols of \<^verbatim>\<open>mask\<close>: a space, the ship block, \<^verbatim>\<open>X\<close> for a hit, \<^verbatim>\<open>.\<close> for a miss and the
  middle dot of a revealed halo.
\<close>

datatype sym = Space | ShipSym | HitX | Dot | MidDot

text \<open>\<^verbatim>\<open>class Board\<close>; \<^verbatim>\<open>size\<close> and \<^verbatim>\<open>count\<close> are \<open>size_b\<close> and \<open>count_b\<close> here.\<close>

record board =
  size_b :: int
  hide :: bool
  count_b :: int
  mask :: "sym list list"
  occupy_cells :: "cell list"
  ships :: "ship list"

text \<open>
  \<^verbatim>\<open>Board.__init__\<close>. The guard is the chained comparison \<^verbatim>\<open>5 > size > 10\<close>, which Python
  reads as \<^verbatim>\<open>5 > size and size > 10\<close>.
\<close>

definition Board :: "bool \<Rightarrow> int \<Rightarrow> error + board" where
  "Board hide_flag sz =
     (if 5 > sz \<and> sz > 10 then Inl BoardSizeException
      else Inr \<lparr>size_b = sz, hide = hide_flag, count_b = 0,
                mask = replicate (nat sz) (replicate (nat sz) Space),
                occupy_cells = [], ships = []\<rparr>)"

definition outside_board :: "board \<Rightarrow> cell \<Rightarrow> bool" where
  "outside_board b c =
     (\<not> ((0 \<le> row c \<and> row c < size_b b) \<and> (0 \<le> column c \<and> column c < size_b b)))"

text \<open>
  \<^verbatim>\<open>self.mask[cell.row][cell.column] = v\<close>. Every such assignment of the source stands
  behind a test \<^verbatim>\<open>outside_board\<close> of the same cell, and the mask is \<^verbatim>\<open>size\<close> rows of \<^verbatim>\<open>size\<close>
  symbols from \<^verbatim>\<open>__init__\<close> on (\<open>mask_ok\<close>), so the indices are in range where it runs.
\<close>

definition mask_set :: "sym list list \<Rightarrow> cell \<Rightarrow> sym \<Rightarrow> sym list list" where
  "mask_set m c v = m[nat (row c) := (m ! nat (row c))[nat (column c) := v]]"

definition mask_at :: "board \<Rightarrow> cell \<Rightarrow> sym" where
  "mask_at b c = mask b ! nat (row c) ! nat (column c)"

definition mask_ok :: "board \<Rightarrow> bool" where
  "mask_ok b =
     (length (mask b) = nat (size_b b) \<and> list_all (\<lambda>r. length r = nat (size_b b)) (mask b))"

definition around_ship :: "(int \<times> int) list" where
  "around_ship =
     [(- 1, - 1), (- 1, 0), (- 1, 1),
      (0, - 1), (0, 0), (0, 1),
      (1, - 1), (1, 0), (1, 1)]"

text \<open>The body of the inner loop of \<^verbatim>\<open>aureole\<close>, for one \<^verbatim>\<open>current_cell\<close>.\<close>

definition aureole_cell :: "bool \<Rightarrow> cell \<Rightarrow> board \<Rightarrow> board" where
  "aureole_cell visibility current_cell b =
     (if \<not> outside_board b current_cell \<and> current_cell \<notin> set (occupy_cells b)
      then (let b1 = (if visibility then b\<lparr>mask := mask_set (mask b) current_cell MidDot\<rparr> else b)
            in b1\<lparr>occupy_cells := occupy_cells b1 @ [current_cell]\<rparr>)
      else b)"

definition aureole :: "board \<Rightarrow> ship \<Rightarrow> bool \<Rightarrow> board" where
  "aureole b s visibility =
     fold (\<lambda>c b1. fold (\<lambda>(r, k) b2. aureole_cell visibility (Cell (row c + r) (column c + k)) b2)
                    around_ship b1)
       (cells s) b"

text \<open>
  \<^verbatim>\<open>Board.add_ship\<close>. A method that raises leaves the object as it was at the raise, so the
  result is the outcome together with the board.
\<close>

definition add_ship :: "board \<Rightarrow> ship \<Rightarrow> (error + unit) \<times> board" where
  "add_ship b s =
     (let sign = (if hide b then Space else ShipSym) in
      if list_ex (\<lambda>c. outside_board b c \<or> c \<in> set (occupy_cells b)) (cells s)
      then (Inl WrongPositionShipException, b)
      else (let b1 = fold (\<lambda>c b'. b'\<lparr>mask := mask_set (mask b') c sign,
                                      occupy_cells := occupy_cells b' @ [c]\<rparr>) (cells s) b;
                b2 = b1\<lparr>ships := ships b1 @ [s]\<rparr>
            in (Inr (), aureole b2 s False)))"

text \<open>What \<^verbatim>\<open>shot\<close> prints.\<close>

datatype message = MsgHit | MsgDestroyed | MsgWounded | MsgMiss

text \<open>
  The loop \<^verbatim>\<open>for ship in self.ships\<close> of \<^verbatim>\<open>shot\<close>: \<open>done\<close> are the ships already passed.
  The ship objects live in the list alone, so \<^verbatim>\<open>ship.health -= 1\<close> rewrites the entry.
\<close>

fun shot_loop :: "board \<Rightarrow> cell \<Rightarrow> ship list \<Rightarrow> ship list \<Rightarrow> (message list \<times> bool) \<times> board" where
  "shot_loop b c passed [] =
     (([MsgMiss], False), b\<lparr>mask := mask_set (mask b) c Dot\<rparr>)"
| "shot_loop b c passed (s # rest) =
     (if c \<in> set (cells s)
      then (let s1 = s\<lparr>health := health s - 1\<rparr>;
                b1 = b\<lparr>ships := passed @ s1 # rest, mask := mask_set (mask b) c HitX\<rparr>
            in if health s1 = 0
               then (([MsgHit, MsgDestroyed], True),
                     aureole (b1\<lparr>count_b := count_b b1 + 1\<rparr>) s1 True)
               else (([MsgHit, MsgWounded], True), b1))
      else shot_loop b c (passed @ [s]) rest)"

definition shot :: "board \<Rightarrow> cell \<Rightarrow> (error + message list \<times> bool) \<times> board" where
  "shot b c =
     (if outside_board b c then (Inl BoardOutsideException, b)
      else if c \<in> set (occupy_cells b) then (Inl OccupiedCellException, b)
      else (let b1 = b\<lparr>occupy_cells := occupy_cells b @ [c]\<rparr>;
                (r, b2) = shot_loop b1 c [] (ships b1)
            in (Inr r, b2)))"

text \<open>\<^verbatim>\<open>Board.begin\<close>\<close>

definition begin_board :: "board \<Rightarrow> board" where
  "begin_board b = b\<lparr>occupy_cells := []\<rparr>"

subsection \<open>Random placement\<close>

text \<open>
  The generator is an input: \<open>rnd i\<close> is the raw value behind the \<open>i\<close>-th call of
  \<^verbatim>\<open>randint\<close>, and the position \<open>i\<close> is threaded through the calls. \<^verbatim>\<open>randint(a, b)\<close> raises
  \<^verbatim>\<open>ValueError\<close> on an empty range and otherwise returns a value of \<open>a..b\<close>; every such
  value is reached by some raw value.
\<close>

type_synonym rng = "nat \<Rightarrow> nat"

definition randint :: "rng \<Rightarrow> nat \<Rightarrow> int \<Rightarrow> int \<Rightarrow> (error + int) \<times> nat" where
  "randint rnd i a b =
     (if a > b then (Inl ValueError, i)
      else (Inr (a + int (rnd i) mod (b - a + 1)), Suc i))"

text \<open>
  One sample of the loop body of \<^verbatim>\<open>random_place\<close>: the direction, then the two coordinates
  in the order the arguments of \<^verbatim>\<open>Cell\<close> are evaluated.
\<close>

definition sample_ship :: "rng \<Rightarrow> nat \<Rightarrow> int \<Rightarrow> int \<Rightarrow> (error + ship) \<times> nat" where
  "sample_ship rnd i sz ship_length =
     (case randint rnd i 0 1 of
        (Inl e, i1) \<Rightarrow> (Inl e, i1)
      | (Inr direction, i1) \<Rightarrow>
          if direction \<noteq> 0
          then (case randint rnd i1 0 sz of
                  (Inl e, i2) \<Rightarrow> (Inl e, i2)
                | (Inr r, i2) \<Rightarrow>
                    (case randint rnd i2 0 (sz - ship_length) of
                       (Inl e, i3) \<Rightarrow> (Inl e, i3)
                     | (Inr k, i3) \<Rightarrow> (Inr (Ship (Cell r k) ship_length direction), i3)))
          else (case randint rnd i1 0 (sz - ship_length) of
                  (Inl e, i2) \<Rightarrow> (Inl e, i2)
                | (Inr r, i2) \<Rightarrow>
                    (case randint rnd i2 0 sz of
                       (Inl e, i3) \<Rightarrow> (Inl e, i3)
                     | (Inr k, i3) \<Rightarrow> (Inr (Ship (Cell r k) ship_length direction), i3))))"

text \<open>
  The loop \<^verbatim>\<open>while True\<close> for one ship. \<open>attempts\<close> is the counter of the source, which is
  set to 0 once, before the loop over the ships. The first component of the result is
  \<open>Inr True\<close> at \<^verbatim>\<open>break\<close>, \<open>Inr False\<close> at \<^verbatim>\<open>return False, board\<close> and \<open>Inl e\<close> for an
  exception the loop does not catch.
\<close>

function place_ship ::
  "rng \<Rightarrow> int \<Rightarrow> int \<Rightarrow> nat \<Rightarrow> nat \<Rightarrow> board \<Rightarrow> (error + bool) \<times> nat \<times> nat \<times> board" where
  "place_ship rnd sz ship_length attempts i b =
     (if Suc attempts > 2000 then (Inr False, Suc attempts, i, b)
      else (case sample_ship rnd i sz ship_length of
              (Inl e, i1) \<Rightarrow> (Inl e, Suc attempts, i1, b)
            | (Inr s, i1) \<Rightarrow>
                (case add_ship b s of
                   (Inr u, b1) \<Rightarrow> (Inr True, Suc attempts, i1, b1)
                 | (Inl e, b1) \<Rightarrow>
                     if e = WrongPositionShipException
                     then place_ship rnd sz ship_length (Suc attempts) i1 b1
                     else (Inl e, Suc attempts, i1, b1))))"
  by pat_completeness auto
termination
  by (relation "measure (\<lambda>(rnd, sz, ship_length, attempts, i, b). 2001 - attempts)") auto

text \<open>The loop \<^verbatim>\<open>for ship_length in ships[begin::]\<close>.\<close>

fun place_all ::
  "rng \<Rightarrow> int \<Rightarrow> int list \<Rightarrow> nat \<Rightarrow> nat \<Rightarrow> board \<Rightarrow> (error + bool) \<times> nat \<times> nat \<times> board" where
  "place_all rnd sz [] attempts i b = (Inr True, attempts, i, b)"
| "place_all rnd sz (ship_length # rest) attempts i b =
     (case place_ship rnd sz ship_length attempts i b of
        (Inr True, attempts1, i1, b1) \<Rightarrow> place_all rnd sz rest attempts1 i1 b1
      | (Inr False, attempts1, i1, b1) \<Rightarrow> (Inr False, attempts1, i1, b1)
      | (Inl e, attempts1, i1, b1) \<Rightarrow> (Inl e, attempts1, i1, b1))"

text \<open>The slice \<^verbatim>\<open>xs[k::]\<close>; a negative \<open>k\<close> counts from the end.\<close>

definition slice_from :: "'a list \<Rightarrow> int \<Rightarrow> 'a list" where
  "slice_from xs k = (if k < 0 then drop (nat (int (length xs) + k)) xs else drop (nat k) xs)"

text \<open>
  The list the loop runs over: \<^verbatim>\<open>ships[begin::]\<close> with
  \<^verbatim>\<open>begin = 9 - self.size if self.size < 10 else 0\<close>.
\<close>

definition placement_catalog :: "int \<Rightarrow> int list" where
  "placement_catalog sz =
     (let ships_list = [4, 3, 2, 3, 2, 2, 1, 1, 1, 1];
          begin_index = (if sz < 10 then 9 - sz else 0)
      in slice_from ships_list begin_index)"

text \<open>\<^verbatim>\<open>Game.random_place\<close>: a fresh board, the loop, and \<^verbatim>\<open>board.begin()\<close> on success.\<close>

definition random_place :: "rng \<Rightarrow> nat \<Rightarrow> int \<Rightarrow> bool \<Rightarrow> (error + bool \<times> board) \<times> nat" where
  "random_place rnd i sz hide_flag =
     (case Board hide_flag sz of
        Inl e \<Rightarrow> (Inl e, i)
      | Inr b \<Rightarrow>
          (case place_all rnd (sz - 1) (placement_catalog sz) 0 i b of
             (Inl e, attempts, i1, b1) \<Rightarrow> (Inl e, i1)
           | (Inr False, attempts, i1, b1) \<Rightarrow> (Inr (False, b1), i1)
           | (Inr True, attempts, i1, b1) \<Rightarrow> (Inr (True, begin_board b1), i1)))"

text \<open>
  \<^verbatim>\<open>Game.random_board\<close>: \<^verbatim>\<open>while not successful_attempt\<close>. Nothing bounds the number of
  passes, so the result is an option and \<open>None\<close> stands for a loop that never ends.
\<close>

partial_function (option) random_board ::
  "rng \<Rightarrow> int \<Rightarrow> bool \<Rightarrow> nat \<Rightarrow> ((error + board) \<times> nat) option" where
  "random_board rnd sz hide_flag i =
     (case random_place rnd i sz hide_flag of
        (Inl e, i1) \<Rightarrow> Some (Inl e, i1)
      | (Inr (successful_attempt, b), i1) \<Rightarrow>
          if successful_attempt then Some (Inr b, i1)
          else random_board rnd sz hide_flag i1)"

subsection \<open>Notions and sample inputs for the statements\<close>

text \<open>
  The catalogue as the specification words it: the reference catalogue, longest ships
  first, without its \<open>10 - sz\<close> longest ships.
\<close>

definition reference_catalog :: "int list" where
  "reference_catalog = [4, 3, 3, 2, 2, 2, 1, 1, 1, 1]"

definition catalog_as_specified :: "int \<Rightarrow> int list" where
  "catalog_as_specified sz = drop (nat (10 - sz)) reference_catalog"

text \<open>
  The cells \<^verbatim>\<open>aureole\<close> visits for a ship, in the order of its two loops: each cell of the
  ship and its eight neighbours.
\<close>

definition halo :: "ship \<Rightarrow> cell list" where
  "halo s =
     concat (map (\<lambda>c. map (\<lambda>(r, k). Cell (row c + r) (column c + k)) around_ship) (cells s))"

text \<open>The body of the second loop of \<^verbatim>\<open>add_ship\<close>, for one cell.\<close>

definition place_cell :: "sym \<Rightarrow> cell \<Rightarrow> board \<Rightarrow> board" where
  "place_cell sign c b = b\<lparr>mask := mask_set (mask b) c sign, occupy_cells := occupy_cells b @ [c]\<rparr>"

text \<open>A board of size 5 as \<^verbatim>\<open>Board(size=5)\<close> builds it, and two ships.\<close>

definition board5 :: board where
  "board5 = \<lparr>size_b = 5, hide = False, count_b = 0,
              mask = replicate 5 (replicate 5 Space), occupy_cells = [], ships = []\<rparr>"

definition ship_a :: ship where
  "ship_a = Ship (Cell 0 0) 2 0"

definition ship_b :: ship where
  "ship_b = Ship (Cell 1 1) 1 1"

text \<open>
  The operations of a board that change it or read it, and a run of them: a method that
  raises leaves the board as it is at the raise.
\<close>

datatype board_op =
    OpAddShip ship
  | OpAureole ship bool
  | OpShot cell
  | OpOutsideBoard cell
  | OpBegin

fun apply_op :: "board \<Rightarrow> board_op \<Rightarrow> board" where
  "apply_op b (OpAddShip s) = snd (add_ship b s)"
| "apply_op b (OpAureole s v) = aureole b s v"
| "apply_op b (OpShot c) = snd (shot b c)"
| "apply_op b (OpOutsideBoard c) = b"
| "apply_op b OpBegin = begin_board b"

definition run_ops :: "board \<Rightarrow> board_op list \<Rightarrow> board" where
  "run_ops b ops = fold (\<lambda>op b1. apply_op b1 op) ops b"

text \<open>
  The board of size 5 with the one ship of length 2 placed and \<^verbatim>\<open>begin\<close> called, and the
  same board after a first shot at the ship.
\<close>

definition combat5 :: board where
  "combat5 = begin_board (snd (add_ship board5 ship_a))"

definition combat5_hit :: board where
  "combat5_hit = snd (shot combat5 (Cell 0 0))"

text \<open>
  The value of the counter \<^verbatim>\<open>attempts\<close> when a pass of \<^verbatim>\<open>random_place\<close> leaves its loops.
\<close>

definition pass_attempts :: "rng \<Rightarrow> nat \<Rightarrow> int \<Rightarrow> bool \<Rightarrow> nat" where
  "pass_attempts rnd i sz hide_flag =
     (case Board hide_flag sz of
        Inl e \<Rightarrow> 0
      | Inr b \<Rightarrow> fst (snd (place_all rnd (sz - 1) (placement_catalog sz) 0 i b)))"

text \<open>
  Raw values for a pass on a board of size 6: eight samples, the third of which is
  rejected.
\<close>

definition rnd_six :: rng where
  "rnd_six i =
     (if i < 24
      then [0, 0, 0, 0, 2, 0, 0, 0, 2, 0, 0, 4, 0, 2, 4, 0, 4, 0, 0, 4, 2, 0, 4, 4] ! i
      else 0)"

section \<open>The search of the XO game: proofs\<close>

lemma dict_set_keys: "k \<in> fst ` set b \<Longrightarrow> map fst (dict_set b k v) = map fst b"
  by (induction b) auto

lemma dict_set_undo:
  "distinct (map fst b) \<Longrightarrow> (c, w) \<in> set b \<Longrightarrow> dict_set (dict_set b c s) c w = b"
  by (induction b) (auto simp: rev_image_eqI)

lemma dict_set_blanks:
  "distinct (map fst b) \<Longrightarrow> (c, Blank) \<in> set b \<Longrightarrow> s \<noteq> Blank \<Longrightarrow>
   Suc (length (get_empty_cells (dict_set b c s))) = length (get_empty_cells b)"
  unfolding get_empty_cells_def
  by (induction b) (auto simp: rev_image_eqI)

lemma empty_cell_mem: "c \<in> set (get_empty_cells b) \<longleftrightarrow> (c, Blank) \<in> set b"
  unfolding get_empty_cells_def by force

lemma better_trans: "better p a b \<Longrightarrow> better p b c \<Longrightarrow> better p a c"
  by (cases a; cases b; cases c; cases p) (auto simp: better_def lt_def)

lemma better_le_trans: "better p s b \<Longrightarrow> \<not> better p a b \<Longrightarrow> better p s a"
  by (cases a; cases b; cases s; cases p) (auto simp: better_def lt_def)

lemma better_le_trans2: "\<not> better p x a \<Longrightarrow> better p s a \<Longrightarrow> \<not> better p x s"
  by (cases a; cases x; cases s; cases p) (auto simp: better_def lt_def)

lemma better_irrefl: "\<not> better p a a"
  by (cases a; cases p) (auto simp: better_def lt_def)

lemma pick_split:
  "pick p val cs (bs, bm) = (s, m) \<Longrightarrow>
   (s = bs \<and> m = bm \<and> (\<forall>c\<in>set cs. \<not> better p (val c) bs)) \<or>
   (\<exists>pre c post. cs = pre @ c # post \<and> m = MCell c \<and> s = val c \<and> better p s bs \<and>
      (\<forall>x\<in>set pre. better p s (val x)) \<and> (\<forall>x\<in>set post. \<not> better p (val x) s))"
proof (induction cs arbitrary: bs bm)
  case Nil
  then show ?case by simp
next
  case (Cons a cs)
  show ?case
  proof (cases "better p (val a) bs")
    case True
    with Cons.prems have pk: "pick p val cs (val a, MCell a) = (s, m)" by simp
    from Cons.IH [OF pk] show ?thesis
    proof
      assume h: "s = val a \<and> m = MCell a \<and> (\<forall>c\<in>set cs. \<not> better p (val c) (val a))"
      then have "a # cs = [] @ a # cs \<and> m = MCell a \<and> s = val a \<and> better p s bs \<and>
        (\<forall>x\<in>set []. better p s (val x)) \<and> (\<forall>x\<in>set cs. \<not> better p (val x) s)"
        using True by simp
      then show ?thesis by blast
    next
      assume "\<exists>pre c post. cs = pre @ c # post \<and> m = MCell c \<and> s = val c \<and>
        better p s (val a) \<and> (\<forall>x\<in>set pre. better p s (val x)) \<and>
        (\<forall>x\<in>set post. \<not> better p (val x) s)"
      then obtain pre c post where h: "cs = pre @ c # post" "m = MCell c" "s = val c"
        "better p s (val a)" "\<forall>x\<in>set pre. better p s (val x)"
        "\<forall>x\<in>set post. \<not> better p (val x) s" by blast
      have "a # cs = (a # pre) @ c # post \<and> m = MCell c \<and> s = val c \<and> better p s bs \<and>
        (\<forall>x\<in>set (a # pre). better p s (val x)) \<and> (\<forall>x\<in>set post. \<not> better p (val x) s)"
        using h True better_trans [of p s "val a" bs] by simp
      then show ?thesis by blast
    qed
  next
    case False
    with Cons.prems have pk: "pick p val cs (bs, bm) = (s, m)" by simp
    from Cons.IH [OF pk] show ?thesis
    proof
      assume "s = bs \<and> m = bm \<and> (\<forall>c\<in>set cs. \<not> better p (val c) bs)"
      then show ?thesis using False by simp
    next
      assume "\<exists>pre c post. cs = pre @ c # post \<and> m = MCell c \<and> s = val c \<and>
        better p s bs \<and> (\<forall>x\<in>set pre. better p s (val x)) \<and>
        (\<forall>x\<in>set post. \<not> better p (val x) s)"
      then obtain pre c post where h: "cs = pre @ c # post" "m = MCell c" "s = val c"
        "better p s bs" "\<forall>x\<in>set pre. better p s (val x)"
        "\<forall>x\<in>set post. \<not> better p (val x) s" by blast
      have "a # cs = (a # pre) @ c # post \<and> m = MCell c \<and> s = val c \<and> better p s bs \<and>
        (\<forall>x\<in>set (a # pre). better p s (val x)) \<and> (\<forall>x\<in>set post. \<not> better p (val x) s)"
        using h False better_le_trans [of p s bs "val a"] by simp
      then show ?thesis by blast
    qed
  qed
qed

lemma trial_loop_pure:
  assumes "\<forall>c\<in>set cs. \<exists>r. rec_call (dict_set b c (sign_of sg p)) (\<not> p)
             = Some (r, dict_set b c (sign_of sg p))"
    and "\<forall>c\<in>set cs. dict_set (dict_set b c (sign_of sg p)) c Blank = b"
  shows "trial_loop rec_call sg p cs bs bm b
           = Some (pick p (trial_res rec_call sg b p) cs (bs, bm), b)"
  using assms
proof (induction cs arbitrary: bs bm)
  case Nil
  then show ?case by simp
next
  case (Cons c cs)
  from Cons.prems(1) obtain res m where
    r: "rec_call (dict_set b c (sign_of sg p)) (\<not> p) = Some ((res, m), dict_set b c (sign_of sg p))"
    by fastforce
  from Cons.prems(2) have u: "dict_set (dict_set b c (sign_of sg p)) c Blank = b" by simp
  have tr: "trial_res rec_call sg b p c = res" by (simp add: trial_res_def r)
  have ih: "\<And>bs bm. trial_loop rec_call sg p cs bs bm b
           = Some (pick p (trial_res rec_call sg b p) cs (bs, bm), b)"
    using Cons.IH Cons.prems by simp
  have step: "trial_loop rec_call sg p (c # cs) bs bm b =
      (if better p res bs then trial_loop rec_call sg p cs res (MCell c) b
       else trial_loop rec_call sg p cs bs bm b)"
    using r u by (cases p) (simp_all add: better_def)
  show ?case
    unfolding step by (simp add: tr ih)
qed

lemma pick_fin:
  assumes "\<forall>c\<in>set cs. \<exists>v. val c = Fin v" and "cs \<noteq> []"
  shows "\<exists>v c. pick p val cs (init_best p, MUnset) = (Fin v, MCell c) \<and> c \<in> set cs"
proof -
  obtain s m where pk: "pick p val cs (init_best p, MUnset) = (s, m)" by fastforce
  from assms obtain c0 v0 where c0: "c0 \<in> set cs" "val c0 = Fin v0"
    by (cases cs) auto
  have "better p (val c0) (init_best p)"
    using c0 by (cases p) (simp_all add: better_def init_best_def lt_def)
  with pick_split [OF pk] c0 obtain pre c post where
    "cs = pre @ c # post" "m = MCell c" "s = val c" by blast
  with assms(1) pk show ?thesis by fastforce
qed

lemma sorted_empty_cells:
  "sorted_wrt (<) (map fst b) \<Longrightarrow> sorted_wrt (<) (get_empty_cells b)"
  unfolding get_empty_cells_def
  by (induction b) auto

lemma search_step:
  assumes ih: "\<And>b' q. distinct (map fst b') \<Longrightarrow> length (get_empty_cells b') < n \<Longrightarrow>
                \<exists>v m. get_best_move n sg b' q = Some ((Fin v, m), b')"
    and d: "distinct (map fst b)" and s0: "fst sg \<noteq> Blank" and s1: "snd sg \<noteq> Blank"
    and l: "length (get_empty_cells b) \<le> n"
  shows "(\<forall>c\<in>set (get_empty_cells b). \<exists>w. trial_res (get_best_move n sg) sg b p c = Fin w) \<and>
         (\<forall>bs bm. trial_loop (get_best_move n sg) sg p (get_empty_cells b) bs bm b
            = Some (pick p (trial_res (get_best_move n sg) sg b p) (get_empty_cells b) (bs, bm), b))"
proof -
  let ?s = "sign_of sg p"
  let ?cs = "get_empty_cells b"
  have sb: "?s \<noteq> Blank" using s0 s1 by (simp add: sign_of_def)
  have child: "\<exists>v m. get_best_move n sg (dict_set b c ?s) (\<not> p)
                  = Some ((Fin v, m), dict_set b c ?s)" if c: "c \<in> set ?cs" for c
  proof -
    from c have mem: "(c, Blank) \<in> set b" by (simp add: empty_cell_mem)
    then have k: "c \<in> fst ` set b" by force
    have "distinct (map fst (dict_set b c ?s))"
      using d by (simp add: dict_set_keys [OF k])
    moreover have "length (get_empty_cells (dict_set b c ?s)) < n"
      using dict_set_blanks [OF d mem sb] l by simp
    ultimately show ?thesis using ih by blast
  qed
  have undo: "dict_set (dict_set b c ?s) c Blank = b" if c: "c \<in> set ?cs" for c
    using c dict_set_undo [OF d] by (simp add: empty_cell_mem)
  have fin: "\<exists>w. trial_res (get_best_move n sg) sg b p c = Fin w" if c: "c \<in> set ?cs" for c
    using child [OF c] by (auto simp: trial_res_def)
  have loop: "trial_loop (get_best_move n sg) sg p ?cs bs bm b
           = Some (pick p (trial_res (get_best_move n sg) sg b p) ?cs (bs, bm), b)" for bs bm
    by (rule trial_loop_pure) (use child undo in fastforce)+
  from fin loop show ?thesis by blast
qed

lemma search_frame:
  "distinct (map fst b) \<Longrightarrow> fst sg \<noteq> Blank \<Longrightarrow> snd sg \<noteq> Blank \<Longrightarrow>
   length (get_empty_cells b) < n \<Longrightarrow>
   \<exists>v m. get_best_move n sg b p = Some ((Fin v, m), b)"
proof (induction n arbitrary: b p)
  case 0
  then show ?case by simp
next
  case (Suc n)
  let ?cs = "get_empty_cells b"
  let ?val = "trial_res (get_best_move n sg) sg b p"
  have l: "length ?cs \<le> n" using Suc.prems(4) by simp
  have ih: "\<And>b' q. distinct (map fst b') \<Longrightarrow> length (get_empty_cells b') < n \<Longrightarrow>
                \<exists>v m. get_best_move n sg b' q = Some ((Fin v, m), b')"
    using Suc.IH Suc.prems(2,3) by blast
  from search_step [OF ih Suc.prems(1-3) l, of p]
  have fin: "\<forall>c\<in>set ?cs. \<exists>w. ?val c = Fin w"
    and loop: "\<And>bs bm. trial_loop (get_best_move n sg) sg p ?cs bs bm b
                 = Some (pick p ?val ?cs (bs, bm), b)"
    by blast+
  show ?case
  proof (cases "get_winning b \<or> ?cs = []")
    case True
    then show ?thesis by auto
  next
    case False
    then have ne: "?cs \<noteq> []" and nw: "\<not> get_winning b" by auto
    from pick_fin [OF fin ne, of p]
    obtain v c where pk: "pick p ?val ?cs (init_best p, MUnset) = (Fin v, MCell c)" by blast
    have "get_best_move (Suc n) sg b p = Some ((Fin v, MCell c), b)"
      using ne nw loop [of "init_best p" MUnset] pk by (simp add: init_best_def)
    then show ?thesis by simp
  qed
qed

lemma search_pick:
  assumes "distinct (map fst b)" and "fst sg \<noteq> Blank" and "snd sg \<noteq> Blank"
    and "length (get_empty_cells b) \<le> n"
    and "\<not> get_winning b" and "get_empty_cells b \<noteq> []"
  shows "get_best_move (Suc n) sg b p
           = Some (pick p (trial_res (get_best_move n sg) sg b p) (get_empty_cells b)
                     (init_best p, MUnset), b) \<and>
         (\<forall>c\<in>set (get_empty_cells b). \<exists>w. trial_res (get_best_move n sg) sg b p c = Fin w)"
proof -
  have ih: "\<And>b' q. distinct (map fst b') \<Longrightarrow> length (get_empty_cells b') < n \<Longrightarrow>
                \<exists>v m. get_best_move n sg b' q = Some ((Fin v, m), b')"
    using search_frame [OF _ assms(2,3)] by blast
  from search_step [OF ih assms(1-4), of p] assms(5,6) show ?thesis
    by (simp add: init_best_def)
qed

lemma strict_sorted_distinct: "sorted_wrt (<) (xs :: int list) \<Longrightarrow> distinct xs"
  by (induction xs) auto

lemma trial_res_score:
  "trial_res (get_best_move n sg) sg b p c = Fin w \<Longrightarrow> trial_score n sg b p c = Some w"
  by (auto simp: trial_res_def trial_score_def split: option.splits)

lemma better_fin_strict:
  "better p (Fin v) (Fin w) \<Longrightarrow> (if p then w \<le> v else v \<le> w) \<and> w \<noteq> v"
  by (cases p) (auto simp: better_def lt_def)

lemma not_better_fin:
  "\<not> better p (Fin w) (Fin v) \<Longrightarrow> (if p then w \<le> v else v \<le> w)"
  by (cases p) (auto simp: better_def lt_def)

lemma card3_inter:
  assumes "a \<noteq> b" and "a \<noteq> c" and "b \<noteq> c"
  shows "card (A \<inter> {a, b, c :: int}) = 3 \<longleftrightarrow> a \<in> A \<and> b \<in> A \<and> c \<in> A"
proof -
  have c3: "card {a, b, c} = 3" using assms by simp
  have "card (A \<inter> {a, b, c}) = 3 \<longleftrightarrow> A \<inter> {a, b, c} = {a, b, c}"
    using c3 card_subset_eq [of "{a, b, c}" "A \<inter> {a, b, c}"] by auto
  then show ?thesis by auto
qed

lemma keys_with: "set (map fst (filter (\<lambda>x. snd x = s) b)) = {c. (c, s) \<in> set b}"
  by force

text \<open>
  C1. On a board dict (distinct keys) where nobody has won and a cell is empty, with the
  two signs drawn and room for the nested calls, \<^verbatim>\<open>get_best_move\<close> returns, for either
  value of \<^verbatim>\<open>player\<close>, a cell number that is one of the empty cells of the board it
  was given: the cell holds \<^verbatim>\<open>' '\<close> there.
\<close>

theorem get_best_move_returns_empty_cell:
  assumes "distinct (map fst b)" and "fst sg \<noteq> Blank" and "snd sg \<noteq> Blank"
    and "length (get_empty_cells b) \<le> n"
    and "\<not> get_winning b" and "get_empty_cells b \<noteq> []"
  shows "\<exists>s c b'. get_best_move (Suc n) sg b p = Some ((s, MCell c), b') \<and>
           c \<in> set (get_empty_cells b) \<and> (c, Blank) \<in> set b"
proof -
  let ?val = "trial_res (get_best_move n sg) sg b p"
  from search_pick [OF assms, of p] have
    r: "get_best_move (Suc n) sg b p
          = Some (pick p ?val (get_empty_cells b) (init_best p, MUnset), b)" and
    fin: "\<forall>c\<in>set (get_empty_cells b). \<exists>w. ?val c = Fin w"
    by blast+
  from pick_fin [OF fin assms(6), of p] obtain v c where
    "pick p ?val (get_empty_cells b) (init_best p, MUnset) = (Fin v, MCell c)"
    "c \<in> set (get_empty_cells b)" by blast
  with r show ?thesis by (auto simp: empty_cell_mem)
qed

theorem get_best_move_returns_empty_cell_witness:
  "distinct (map fst tie_board) \<and>
   fst (Cross, Nought) \<noteq> Blank \<and> snd (Cross, Nought) \<noteq> Blank \<and>
   length (get_empty_cells tie_board) \<le> 3 \<and>
   \<not> get_winning tie_board \<and> get_empty_cells tie_board \<noteq> [] \<and>
   (\<exists>s c b'. get_best_move (Suc 3) (Cross, Nought) tie_board False = Some ((s, MCell c), b') \<and>
      c \<in> set (get_empty_cells tie_board) \<and> (c, Blank) \<in> set tie_board)"
proof -
  have h1: "distinct (map fst tie_board)" by (simp add: tie_board_def)
  have h2: "fst (Cross, Nought) \<noteq> Blank" and h3: "snd (Cross, Nought) \<noteq> Blank" by simp_all
  have h4: "length (get_empty_cells tie_board) \<le> 3"
    by (simp add: get_empty_cells_def tie_board_def)
  have h5: "\<not> get_winning tie_board"
    by (simp add: get_winning_def win_lines_def tie_board_def)
  have h6: "get_empty_cells tie_board \<noteq> []" by (simp add: get_empty_cells_def tie_board_def)
  from get_best_move_returns_empty_cell [OF h1 h2 h3 h4 h5 h6, of False] h1 h2 h3 h4 h5 h6
  show ?thesis by blast
qed

text \<open>
  C2. On a board dict, with the two signs drawn and room for the nested calls,
  \<^verbatim>\<open>get_best_move\<close> returns and leaves its board argument equal to the value it was
  passed: each trial mark is taken back before the call returns.
\<close>

theorem get_best_move_restores_board:
  assumes "distinct (map fst b)" and "fst sg \<noteq> Blank" and "snd sg \<noteq> Blank"
    and "length (get_empty_cells b) < n"
  shows "\<exists>r. get_best_move n sg b p = Some (r, b)"
  using search_frame [OF assms, of p] by blast

theorem get_best_move_restores_board_witness:
  "distinct (map fst tie_board) \<and>
   fst (Nought, Cross) \<noteq> Blank \<and> snd (Nought, Cross) \<noteq> Blank \<and>
   length (get_empty_cells tie_board) < 4 \<and>
   (\<exists>r. get_best_move 4 (Nought, Cross) tie_board True = Some (r, tie_board))"
proof -
  have h1: "distinct (map fst tie_board)" by (simp add: tie_board_def)
  have h2: "fst (Nought, Cross) \<noteq> Blank" and h3: "snd (Nought, Cross) \<noteq> Blank" by simp_all
  have h4: "length (get_empty_cells tie_board) < 4"
    by (simp add: get_empty_cells_def tie_board_def)
  from get_best_move_restores_board [OF h1 h2 h3 h4, of True] h1 h2 h3 h4
  show ?thesis by blast
qed

text \<open>
  C3. On a board whose keys ascend (the dict \<^verbatim>\<open>get_board\<close> builds has the keys 1 to 9 in
  this order), where nobody has won and a cell is empty, \<^verbatim>\<open>get_best_move\<close> returns the
  best trial score (the greatest for \<^verbatim>\<open>player\<close>, the least otherwise) and, among the
  empty cells whose trial attains it, the one with the least number: the first met
  in iteration order.
\<close>

theorem get_best_move_first_optimal:
  assumes "sorted_wrt (<) (map fst b)" and "fst sg \<noteq> Blank" and "snd sg \<noteq> Blank"
    and "length (get_empty_cells b) \<le> n"
    and "\<not> get_winning b" and "get_empty_cells b \<noteq> []"
  shows "\<exists>v c. get_best_move (Suc n) sg b p = Some ((Fin v, MCell c), b) \<and>
           c \<in> set (get_empty_cells b) \<and> trial_score n sg b p c = Some v \<and>
           (\<forall>c'\<in>set (get_empty_cells b). \<exists>w. trial_score n sg b p c' = Some w \<and>
               (if p then w \<le> v else v \<le> w) \<and> (w = v \<longrightarrow> c \<le> c'))"
proof -
  let ?cs = "get_empty_cells b"
  let ?val = "trial_res (get_best_move n sg) sg b p"
  have d: "distinct (map fst b)" using assms(1) by (rule strict_sorted_distinct)
  from search_pick [OF d assms(2-6), of p] have
    r0: "get_best_move (Suc n) sg b p = Some (pick p ?val ?cs (init_best p, MUnset), b)" and
    fin: "\<forall>c\<in>set ?cs. \<exists>w. ?val c = Fin w"
    by blast+
  from pick_fin [OF fin assms(6), of p] obtain v m where
    pk: "pick p ?val ?cs (init_best p, MUnset) = (Fin v, m)" by blast
  have r: "get_best_move (Suc n) sg b p = Some ((Fin v, m), b)" using r0 pk by simp
  from assms(6) fin obtain c0 w0 where c0: "c0 \<in> set ?cs" "?val c0 = Fin w0"
    by (cases ?cs) auto
  have "better p (?val c0) (init_best p)"
    using c0 by (cases p) (simp_all add: better_def init_best_def lt_def)
  with pick_split [OF pk] c0 obtain pre c post where
    sp: "?cs = pre @ c # post" and m: "m = MCell c" and vc: "Fin v = ?val c"
    and pre: "\<forall>x\<in>set pre. better p (Fin v) (?val x)"
    and post: "\<forall>x\<in>set post. \<not> better p (?val x) (Fin v)" by blast
  have srt: "sorted_wrt (<) (pre @ c # post)"
    using sorted_empty_cells [OF assms(1)] sp by simp
  have cmem: "c \<in> set ?cs" using sp by simp
  have each: "\<exists>w. trial_score n sg b p c' = Some w \<and>
               (if p then w \<le> v else v \<le> w) \<and> (w = v \<longrightarrow> c \<le> c')"
    if c': "c' \<in> set ?cs" for c'
  proof -
    from fin c' obtain w where w: "?val c' = Fin w" by blast
    have ts: "trial_score n sg b p c' = Some w" using w by (rule trial_res_score)
    from c' sp have "c' \<in> set pre \<or> c' = c \<or> c' \<in> set post" by auto
    then show ?thesis
    proof (elim disjE)
      assume "c' \<in> set pre"
      with pre w have "better p (Fin v) (Fin w)" by force
      from better_fin_strict [OF this] ts show ?thesis by simp
    next
      assume "c' = c"
      with vc w ts show ?thesis by simp
    next
      assume a: "c' \<in> set post"
      with post w have "\<not> better p (Fin w) (Fin v)" by force
      from not_better_fin [OF this] have o: "if p then w \<le> v else v \<le> w" .
      from srt a have "c < c'" by (auto simp: sorted_wrt_append)
      with o ts show ?thesis by simp
    qed
  qed
  have "trial_score n sg b p c = Some v" using vc trial_res_score [of n sg b p c v] by simp
  with r m cmem each show ?thesis by blast
qed

theorem get_best_move_first_optimal_witness:
  "sorted_wrt (<) (map fst tie_board) \<and>
   fst (Cross, Nought) \<noteq> Blank \<and> snd (Cross, Nought) \<noteq> Blank \<and>
   length (get_empty_cells tie_board) \<le> 3 \<and>
   \<not> get_winning tie_board \<and> get_empty_cells tie_board \<noteq> [] \<and>
   get_best_move (Suc 3) (Cross, Nought) tie_board True = Some ((Fin 10, MCell 3), tie_board) \<and>
   map (trial_score 3 (Cross, Nought) tie_board True) (get_empty_cells tie_board)
     = [Some 10, Some 10, Some (- 10)]"
proof -
  have h1: "sorted_wrt (<) (map fst tie_board)" by (simp add: tie_board_def)
  have h2: "fst (Cross, Nought) \<noteq> Blank" and h3: "snd (Cross, Nought) \<noteq> Blank" by simp_all
  have h4: "length (get_empty_cells tie_board) \<le> 3" by (simp add: get_empty_cells_def tie_board_def)
  have h5: "\<not> get_winning tie_board" by (simp add: get_winning_def win_lines_def tie_board_def)
  have h6: "get_empty_cells tie_board \<noteq> []" by (simp add: get_empty_cells_def tie_board_def)
  have ec: "get_empty_cells tie_board = [3, 6, 9]" by (simp add: get_empty_cells_def tie_board_def)
  have ts: "map (trial_score 3 (Cross, Nought) tie_board True) [3, 6, 9]
     = [Some 10, Some 10, Some (- 10)]"
    by code_simp
  from get_best_move_first_optimal [OF h1 h2 h3 h4 h5 h6, of True] obtain v c where
    r: "get_best_move (Suc 3) (Cross, Nought) tie_board True = Some ((Fin v, MCell c), tie_board)"
    and c: "c \<in> set (get_empty_cells tie_board)"
    and tc: "trial_score 3 (Cross, Nought) tie_board True c = Some v"
    and a: "\<forall>c'\<in>set (get_empty_cells tie_board). \<exists>w.
          trial_score 3 (Cross, Nought) tie_board True c' = Some w \<and>
          (if True then w \<le> v else v \<le> w) \<and> (w = v \<longrightarrow> c \<le> c')"
    by blast
  from a ec ts have "10 \<le> v" "10 = v \<longrightarrow> c \<le> 3" by auto
  moreover from c ec tc ts have "v = 10 \<or> v = - 10" "3 \<le> c" by auto
  ultimately have "v = 10" "c = 3" by auto
  with r h1 h2 h3 h4 h5 h6 ec ts show ?thesis by simp
qed

text \<open>
  C4, as the code has it. \<^verbatim>\<open>get_winning\<close> reports \<^verbatim>\<open>True\<close> exactly when one of the eight
  lines (three rows, three columns, two diagonals) is owned by the crosses or by the
  noughts; a board without an empty cell and without such a line is not reported. The
  function reads the board and returns a truth value: the board is not changed.
\<close>

theorem get_winning_iff_line_owned:
  "get_winning b \<longleftrightarrow> (\<exists>line\<in>set win_lines. owns b Cross line \<or> owns b Nought line)"
  unfolding get_winning_def Let_def keys_with win_lines_def owns_def
  by (simp add: card3_inter)

text \<open>
  With the draw counted as terminal the statement fails, on a full board no line of which
  is owned: there is no empty cell, and \<^verbatim>\<open>get_winning\<close> is \<^verbatim>\<open>False\<close>.
\<close>

theorem get_winning_draw_counterexample:
  "get_empty_cells [(1 :: int, Cross), (2, Nought), (3, Cross), (4, Cross), (5, Nought), (6, Nought),
        (7, Nought), (8, Cross), (9, Cross)] = [] \<and>
   get_winning [(1, Cross), (2, Nought), (3, Cross), (4, Cross), (5, Nought), (6, Nought),
        (7, Nought), (8, Cross), (9, Cross)] = False"
  by (simp add: get_empty_cells_def get_winning_def win_lines_def)

theorem get_winning_iff_line_owned_witness:
  "get_winning [(1, Cross), (2, Cross), (3, Cross), (4, Nought), (5, Nought), (6, Blank),
        (7, Blank), (8, Blank), (9, Blank)] \<and>
   owns [(1, Cross), (2, Cross), (3, Cross), (4, Nought), (5, Nought), (6, Blank),
        (7, Blank), (8, Blank), (9, Blank)] Cross [1, 2, 3] \<and>
   get_winning tie_board = False \<and> owns tie_board Nought [4, 5, 6] = False"
  using get_winning_iff_line_owned [of "[(1, Cross), (2, Cross), (3, Cross), (4, Nought),
        (5, Nought), (6, Blank), (7, Blank), (8, Blank), (9, Blank)]"]
    get_winning_iff_line_owned [of tie_board]
  by (simp add: owns_def win_lines_def tie_board_def)

section \<open>The sea battle board: proofs\<close>

lemma fold_concat_map: "fold f (concat (map g xs)) b = fold (\<lambda>x. fold f (g x)) xs b"
  by (induction xs arbitrary: b) auto

lemma aureole_as_fold: "aureole b s v = fold (aureole_cell v) (halo s) b"
proof -
  have inner: "fold (\<lambda>(r, k) b2. aureole_cell v (Cell (row c + r) (column c + k)) b2) around_ship
      = fold (aureole_cell v) (map (\<lambda>(r, k). Cell (row c + r) (column c + k)) around_ship)" for c
    by (simp add: fold_map comp_def case_prod_unfold)
  show ?thesis
    unfolding aureole_def halo_def fold_concat_map inner ..
qed

lemma outside_board_size: "size_b b' = size_b b \<Longrightarrow> outside_board b' c = outside_board b c"
  by (simp add: outside_board_def)

lemma aureole_cell_fields:
  "size_b (aureole_cell v c b) = size_b b"
  "hide (aureole_cell v c b) = hide b"
  "count_b (aureole_cell v c b) = count_b b"
  "ships (aureole_cell v c b) = ships b"
  by (simp_all add: aureole_cell_def Let_def)

lemma aureole_cell_occupy:
  "occupy_cells (aureole_cell v c b) =
     occupy_cells b @ (if \<not> outside_board b c \<and> c \<notin> set (occupy_cells b) then [c] else [])"
  by (simp add: aureole_cell_def Let_def)

lemma fold_aureole_fields:
  "size_b (fold (aureole_cell v) cs b) = size_b b \<and>
   hide (fold (aureole_cell v) cs b) = hide b \<and>
   count_b (fold (aureole_cell v) cs b) = count_b b \<and>
   ships (fold (aureole_cell v) cs b) = ships b"
  by (induction cs arbitrary: b) (simp_all add: aureole_cell_fields)

lemma fold_aureole_occupy:
  "set (occupy_cells (fold (aureole_cell v) cs b)) =
     set (occupy_cells b) \<union> {c \<in> set cs. \<not> outside_board b c}"
proof (induction cs arbitrary: b)
  case Nil
  then show ?case by simp
next
  case (Cons a cs)
  have o: "outside_board (aureole_cell v a b) c = outside_board b c" for c
    by (rule outside_board_size) (simp add: aureole_cell_fields)
  show ?case
    by (auto simp: Cons.IH o aureole_cell_occupy)
qed

lemma fold_aureole_mask_hidden: "mask (fold (aureole_cell False) cs b) = mask b"
  by (induction cs arbitrary: b) (simp_all add: aureole_cell_def)

lemma in_bounds_nat:
  "\<not> outside_board b c \<Longrightarrow> mask_ok b \<Longrightarrow>
   nat (row c) < length (mask b) \<and> nat (column c) < length (mask b ! nat (row c))"
  by (auto simp: outside_board_def mask_ok_def list_all_length)

lemma update2_all_length:
  assumes "list_all (\<lambda>r. length r = n) m"
  shows "list_all (\<lambda>r. length r = n) (m[i := (m ! i)[j := v]])"
proof (cases "i < length m")
  case True
  then have "length ((m ! i)[j := v]) = n" using assms by (simp add: list_all_length)
  moreover have "set (m[i := (m ! i)[j := v]]) \<subseteq> insert ((m ! i)[j := v]) (set m)"
    by (rule set_update_subset_insert)
  ultimately show ?thesis using assms by (auto simp: list_all_iff)
next
  case False
  then have "m[i := (m ! i)[j := v]] = m" by (simp add: list_update_beyond)
  then show ?thesis using assms by simp
qed

lemma mask_ok_set:
  "mask_ok b \<Longrightarrow> mask_ok (b\<lparr>mask := mask_set (mask b) c v\<rparr>)"
  by (simp add: mask_ok_def mask_set_def update2_all_length)

lemma mask_at_set:
  assumes "mask_ok b" and "\<not> outside_board b c" and "\<not> outside_board b c'"
  shows "mask_at (b\<lparr>mask := mask_set (mask b) c v\<rparr>) c' = (if c' = c then v else mask_at b c')"
proof -
  from in_bounds_nat [OF assms(2,1)] in_bounds_nat [OF assms(3,1)]
  have r: "nat (row c) < length (mask b)" "nat (column c) < length (mask b ! nat (row c))"
    "nat (row c') < length (mask b)" "nat (column c') < length (mask b ! nat (row c'))"
    by simp_all
  have eq: "c' = c \<longleftrightarrow> nat (row c') = nat (row c) \<and> nat (column c') = nat (column c)"
    using assms(2,3) by (cases c; cases c') (auto simp: outside_board_def)
  show ?thesis
    using r eq by (auto simp: mask_at_def mask_set_def nth_list_update)
qed

lemma aureole_cell_mask_ok: "mask_ok b \<Longrightarrow> mask_ok (aureole_cell v c b)"
  using mask_ok_set [of b c MidDot]
  by (auto simp: aureole_cell_def Let_def mask_ok_def)

lemma fold_aureole_mask_ok: "mask_ok b \<Longrightarrow> mask_ok (fold (aureole_cell v) cs b)"
  by (induction cs arbitrary: b) (simp_all add: aureole_cell_mask_ok)

lemma aureole_cell_mask_at:
  assumes "mask_ok b" and "\<not> outside_board b c'"
  shows "mask_at (aureole_cell True c b) c' =
     (if c' = c \<and> c \<notin> set (occupy_cells b) then MidDot else mask_at b c')"
proof (cases "\<not> outside_board b c \<and> c \<notin> set (occupy_cells b)")
  case True
  then have "mask_at (aureole_cell True c b) c' = mask_at (b\<lparr>mask := mask_set (mask b) c MidDot\<rparr>) c'"
    by (simp add: aureole_cell_def Let_def mask_at_def)
  with True mask_at_set [OF assms(1) _ assms(2), of c MidDot] show ?thesis by simp
next
  case False
  then show ?thesis using assms(2) by (auto simp: aureole_cell_def)
qed

lemma fold_aureole_mask_at:
  assumes "mask_ok b" and "\<not> outside_board b c'"
  shows "mask_at (fold (aureole_cell True) cs b) c' =
     (if c' \<in> set cs \<and> c' \<notin> set (occupy_cells b) then MidDot else mask_at b c')"
  using assms
proof (induction cs arbitrary: b)
  case Nil
  then show ?case by simp
next
  case (Cons a cs)
  let ?b1 = "aureole_cell True a b"
  have ok1: "mask_ok ?b1" using Cons.prems(1) by (rule aureole_cell_mask_ok)
  have in1: "\<not> outside_board ?b1 c'"
    using Cons.prems(2) outside_board_size [of ?b1 b c'] by (simp add: aureole_cell_fields)
  have "mask_at (fold (aureole_cell True) (a # cs) b) c' =
     (if c' \<in> set cs \<and> c' \<notin> set (occupy_cells ?b1) then MidDot else mask_at ?b1 c')"
    using Cons.IH [OF ok1 in1] by simp
  also have "\<dots> = (if c' \<in> set (a # cs) \<and> c' \<notin> set (occupy_cells b) then MidDot else mask_at b c')"
    using Cons.prems(2) aureole_cell_mask_at [OF Cons.prems, of a]
    by (auto simp: aureole_cell_occupy)
  finally show ?case .
qed

lemma fold_place_fields:
  "size_b (fold (place_cell sign) cs b) = size_b b \<and>
   hide (fold (place_cell sign) cs b) = hide b \<and>
   count_b (fold (place_cell sign) cs b) = count_b b \<and>
   ships (fold (place_cell sign) cs b) = ships b \<and>
   occupy_cells (fold (place_cell sign) cs b) = occupy_cells b @ cs"
  by (induction cs arbitrary: b) (simp_all add: place_cell_def)

lemma place_cell_mask_ok: "mask_ok b \<Longrightarrow> mask_ok (place_cell sign c b)"
  using mask_ok_set [of b c sign] by (simp add: place_cell_def mask_ok_def)

lemma fold_place_mask_ok: "mask_ok b \<Longrightarrow> mask_ok (fold (place_cell sign) cs b)"
  by (induction cs arbitrary: b) (simp_all add: place_cell_mask_ok)

lemma place_cell_mask_at:
  assumes "mask_ok b" and "\<not> outside_board b c" and "\<not> outside_board b c'"
  shows "mask_at (place_cell sign c b) c' = (if c' = c then sign else mask_at b c')"
  using mask_at_set [OF assms, of sign] by (simp add: place_cell_def mask_at_def)

lemma fold_place_mask_at:
  assumes "mask_ok b" and "\<forall>c\<in>set cs. \<not> outside_board b c" and "\<not> outside_board b c'"
  shows "mask_at (fold (place_cell sign) cs b) c' = (if c' \<in> set cs then sign else mask_at b c')"
  using assms
proof (induction cs arbitrary: b)
  case Nil
  then show ?case by simp
next
  case (Cons a cs)
  let ?b1 = "place_cell sign a b"
  have sz: "size_b ?b1 = size_b b" by (simp add: place_cell_def)
  have ok1: "mask_ok ?b1" using Cons.prems(1) by (rule place_cell_mask_ok)
  have in1: "\<forall>c\<in>set cs. \<not> outside_board ?b1 c" "\<not> outside_board ?b1 c'"
    using Cons.prems(2,3) outside_board_size [OF sz] by simp_all
  have a: "\<not> outside_board b a" using Cons.prems(2) by simp
  show ?case
    using Cons.IH [OF ok1 in1] place_cell_mask_at [OF Cons.prems(1) a Cons.prems(3), of sign]
    by auto
qed

lemma add_ship_unfold:
  "add_ship b s =
     (if list_ex (\<lambda>c. outside_board b c \<or> c \<in> set (occupy_cells b)) (cells s)
      then (Inl WrongPositionShipException, b)
      else (Inr (), fold (aureole_cell False) (halo s)
              ((fold (place_cell (if hide b then Space else ShipSym)) (cells s) b)
                 \<lparr>ships := ships b @ [s]\<rparr>)))"
proof -
  have f: "(\<lambda>c b'. b'\<lparr>mask := mask_set (mask b') c sign, occupy_cells := occupy_cells b' @ [c]\<rparr>)
             = place_cell sign" for sign
    by (simp add: place_cell_def fun_eq_iff)
  show ?thesis
    by (simp add: add_ship_def Let_def f aureole_as_fold fold_place_fields)
qed

lemma in_concat_map: "x \<in> set xs \<Longrightarrow> y \<in> set (g x) \<Longrightarrow> y \<in> set (concat (map g xs))"
  by auto

lemma cells_in_halo: "set (cells s) \<subseteq> set (halo s)"
proof
  fix c assume mem: "c \<in> set (cells s)"
  have "c \<in> set (map (\<lambda>(r, k). Cell (row c + r) (column c + k)) around_ship)"
    by (simp add: around_ship_def)
  with mem show "c \<in> set (halo s)"
    unfolding halo_def by (rule in_concat_map)
qed

text \<open>
  C5. On a board whose mask has its \<^verbatim>\<open>size\<close> rows of \<^verbatim>\<open>size\<close> symbols, \<^verbatim>\<open>add_ship\<close> accepts a
  ship exactly when every cell of the ship is inside the board and none is in
  \<^verbatim>\<open>occupy_cells\<close>. Accepted, the ship is appended to \<^verbatim>\<open>ships\<close>, each of its cells carries the
  ship's sign in the mask and is in \<^verbatim>\<open>occupy_cells\<close>, together with every cell of its halo
  that lies inside the board, and nothing else of the board changes. Rejected, the
  exception is \<^verbatim>\<open>WrongPositionShipException\<close> and the board is the one it was.
\<close>

theorem add_ship_atomic:
  assumes "mask_ok b" and "add_ship b s = (r, b')"
  shows "(r = Inr () \<longleftrightarrow>
            (\<forall>c\<in>set (cells s). \<not> outside_board b c \<and> c \<notin> set (occupy_cells b))) \<and>
         (r = Inr () \<longrightarrow>
            ships b' = ships b @ [s] \<and>
            set (occupy_cells b') =
              set (occupy_cells b) \<union> set (cells s) \<union> {c \<in> set (halo s). \<not> outside_board b c} \<and>
            (\<forall>c\<in>set (cells s). mask_at b' c = (if hide b then Space else ShipSym)) \<and>
            (\<forall>c. \<not> outside_board b c \<and> c \<notin> set (cells s) \<longrightarrow> mask_at b' c = mask_at b c) \<and>
            size_b b' = size_b b \<and> hide b' = hide b \<and> count_b b' = count_b b) \<and>
         (r \<noteq> Inr () \<longrightarrow> r = Inl WrongPositionShipException \<and> b' = b)"
proof (cases "list_ex (\<lambda>c. outside_board b c \<or> c \<in> set (occupy_cells b)) (cells s)")
  case True
  with assms(2) have "r = Inl WrongPositionShipException" "b' = b"
    by (simp_all add: add_ship_unfold)
  with True show ?thesis by (auto simp: list_ex_iff)
next
  case False
  let ?sign = "if hide b then Space else ShipSym"
  let ?b1 = "fold (place_cell ?sign) (cells s) b"
  let ?b2 = "?b1\<lparr>ships := ships b @ [s]\<rparr>"
  from False have free: "\<forall>c\<in>set (cells s). \<not> outside_board b c \<and> c \<notin> set (occupy_cells b)"
    by (auto simp: list_ex_iff)
  from False assms(2) have r: "r = Inr ()" and b': "b' = fold (aureole_cell False) (halo s) ?b2"
    by (simp_all add: add_ship_unfold)
  have sz2: "size_b ?b2 = size_b b" by (simp add: fold_place_fields)
  have occ: "set (occupy_cells b') =
      set (occupy_cells b) \<union> set (cells s) \<union> {c \<in> set (halo s). \<not> outside_board b c}"
    unfolding b' fold_aureole_occupy
    by (simp add: fold_place_fields outside_board_size [OF sz2])
  have m: "mask b' = mask ?b1" unfolding b' by (simp add: fold_aureole_mask_hidden)
  have at: "mask_at b' c = (if c \<in> set (cells s) then ?sign else mask_at b c)"
    if "\<not> outside_board b c" for c
    using fold_place_mask_at [OF assms(1) _ that, of "cells s" ?sign] free m
    by (simp add: mask_at_def)
  have fl: "ships b' = ships b @ [s]" "size_b b' = size_b b" "hide b' = hide b"
    "count_b b' = count_b b"
    unfolding b' by (simp_all add: fold_aureole_fields fold_place_fields)
  have k1: "\<forall>c\<in>set (cells s). mask_at b' c = ?sign" using at free by simp
  have k2: "\<forall>c. \<not> outside_board b c \<and> c \<notin> set (cells s) \<longrightarrow> mask_at b' c = mask_at b c"
    using at by simp
  have k3: "r = Inr () \<longleftrightarrow>
      (\<forall>c\<in>set (cells s). \<not> outside_board b c \<and> c \<notin> set (occupy_cells b))"
    using r free by simp
  have k4: "r \<noteq> Inr () \<longrightarrow> r = Inl WrongPositionShipException \<and> b' = b"
    using r by simp
  from k3 k4 fl occ k1 k2 show ?thesis by blast
qed

lemma add_ship_mask_ok: "mask_ok b \<Longrightarrow> mask_ok (snd (add_ship b s))"
proof -
  assume ok: "mask_ok b"
  let ?sign = "if hide b then Space else ShipSym"
  have "mask_ok (fold (place_cell ?sign) (cells s) b)" using ok by (rule fold_place_mask_ok)
  then have "mask_ok ((fold (place_cell ?sign) (cells s) b)\<lparr>ships := ships b @ [s]\<rparr>)"
    by (simp add: mask_ok_def)
  then have "mask_ok (fold (aureole_cell False) (halo s)
       ((fold (place_cell ?sign) (cells s) b)\<lparr>ships := ships b @ [s]\<rparr>))"
    by (rule fold_aureole_mask_ok)
  with ok show ?thesis by (simp add: add_ship_unfold)
qed

lemma cells_ship_a: "cells ship_a = [Cell 0 0, Cell 0 1]"
  by code_simp

lemma cells_ship_b: "cells ship_b = [Cell 1 1]"
  by code_simp

lemma mask_ok_board5: "mask_ok board5"
  by (simp add: mask_ok_def board5_def list_all_iff)

text \<open>
  A ship of length 2 is accepted on the empty board; a ship on a cell of its halo is
  then rejected, and the board stays as it was.
\<close>

theorem add_ship_atomic_witness:
  "mask_ok board5 \<and>
   fst (add_ship board5 ship_a) = Inr () \<and>
   ships (snd (add_ship board5 ship_a)) = [ship_a] \<and>
   set (occupy_cells (snd (add_ship board5 ship_a))) =
     {Cell 0 0, Cell 0 1, Cell 0 2, Cell 1 0, Cell 1 1, Cell 1 2} \<and>
   mask_at (snd (add_ship board5 ship_a)) (Cell 0 1) = ShipSym \<and>
   mask_ok (snd (add_ship board5 ship_a)) \<and>
   fst (add_ship (snd (add_ship board5 ship_a)) ship_b) = Inl WrongPositionShipException \<and>
   snd (add_ship (snd (add_ship board5 ship_a)) ship_b) = snd (add_ship board5 ship_a)"
proof -
  let ?b1 = "snd (add_ship board5 ship_a)"
  have e1: "add_ship board5 ship_a = (fst (add_ship board5 ship_a), ?b1)" by simp
  note t1 = add_ship_atomic [OF mask_ok_board5 e1]
  have free: "\<forall>c\<in>set (cells ship_a). \<not> outside_board board5 c \<and> c \<notin> set (occupy_cells board5)"
    by (simp add: cells_ship_a outside_board_def board5_def)
  from t1 free have r1: "fst (add_ship board5 ship_a) = Inr ()" by blast
  from t1 r1 have s1: "ships ?b1 = ships board5 @ [ship_a]"
    and o1: "set (occupy_cells ?b1) = set (occupy_cells board5) \<union> set (cells ship_a) \<union>
        {c \<in> set (halo ship_a). \<not> outside_board board5 c}"
    and m1: "\<forall>c\<in>set (cells ship_a). mask_at ?b1 c = (if hide board5 then Space else ShipSym)"
    by blast+
  have h: "{c \<in> set (halo ship_a). \<not> outside_board board5 c}
      = {Cell 0 0, Cell 0 1, Cell 0 2, Cell 1 0, Cell 1 1, Cell 1 2}"
    by (auto simp: halo_def cells_ship_a around_ship_def outside_board_def board5_def)
  have o1': "set (occupy_cells ?b1) = {Cell 0 0, Cell 0 1, Cell 0 2, Cell 1 0, Cell 1 1, Cell 1 2}"
    unfolding o1 h by (auto simp: cells_ship_a board5_def)
  have ok1: "mask_ok ?b1" using mask_ok_board5 by (rule add_ship_mask_ok)
  let ?b2 = "snd (add_ship ?b1 ship_b)"
  have e2: "add_ship ?b1 ship_b = (fst (add_ship ?b1 ship_b), ?b2)" by simp
  note t2 = add_ship_atomic [OF ok1 e2]
  have "\<not> (\<forall>c\<in>set (cells ship_b). \<not> outside_board ?b1 c \<and> c \<notin> set (occupy_cells ?b1))"
    by (simp add: cells_ship_b o1')
  with t2 have r2: "fst (add_ship ?b1 ship_b) = Inl WrongPositionShipException" "?b2 = ?b1"
    by blast+
  from m1 have "mask_at ?b1 (Cell 0 1) = ShipSym" by (simp add: cells_ship_a board5_def)
  with mask_ok_board5 r1 s1 o1' ok1 r2 show ?thesis by (simp add: board5_def)
qed

text \<open>
  C9, as the code has it. For a size below 10 the list the placement runs over is the
  list of the source, \<^verbatim>\<open>[4, 3, 2, 3, 2, 2, 1, 1, 1, 1]\<close>, without its first \<open>9 - sz\<close> entries:
  \<open>sz + 1\<close> ships (none below size 0). Nothing is dropped at size 9, and the entries go in
  the order of the list, which is not longest first.
\<close>

theorem placement_catalog_drops_prefix:
  "sz < 10 \<Longrightarrow>
   placement_catalog sz = drop (nat (9 - sz)) [4, 3, 2, 3, 2, 2, 1, 1, 1, 1] \<and>
   int (length (placement_catalog sz)) = max 0 (sz + 1)"
  by (auto simp: placement_catalog_def slice_from_def)

theorem placement_catalog_drops_prefix_witness:
  "(6 :: int) < 10 \<and>
   placement_catalog 6 = drop (nat (9 - 6)) [4, 3, 2, 3, 2, 2, 1, 1, 1, 1] \<and>
   int (length (placement_catalog 6)) = max 0 (6 + 1)"
  using placement_catalog_drops_prefix [of 6] by simp

text \<open>
  The catalogue of the specification is not the one of the code at the sizes 6 and 9. At
  size 6 the code drops the ships of
  lengths 4, 3 and 2 and keeps one of length 3, where the four (or, counted as the code
  counts, three) longest ships of the reference catalogue would go; at size 9 it drops
  nothing.
\<close>

theorem placement_catalog_counterexample:
  "placement_catalog 6 = [3, 2, 2, 1, 1, 1, 1] \<and>
   catalog_as_specified 6 = [2, 2, 1, 1, 1, 1] \<and>
   drop 3 reference_catalog = [2, 2, 2, 1, 1, 1, 1] \<and>
   placement_catalog 9 = [4, 3, 2, 3, 2, 2, 1, 1, 1, 1] \<and>
   catalog_as_specified 9 = [3, 3, 2, 2, 2, 1, 1, 1, 1]"
  by (simp add: placement_catalog_def slice_from_def catalog_as_specified_def
      reference_catalog_def)

text \<open>
  C10. The guard of \<^verbatim>\<open>Board.__init__\<close> is never true: a board of size 4 and a board of size
  11 are built, and no \<^verbatim>\<open>BoardSizeException\<close> is raised.
\<close>

theorem Board_size_guard_never_raises:
  "Board False 4 =
     Inr \<lparr>size_b = 4, hide = False, count_b = 0, mask = replicate 4 (replicate 4 Space),
          occupy_cells = [], ships = []\<rparr> \<and>
   Board False 11 =
     Inr \<lparr>size_b = 11, hide = False, count_b = 0, mask = replicate 11 (replicate 11 Space),
          occupy_cells = [], ships = []\<rparr>"
  by (simp add: Board_def)

lemma fold_aureole_appends:
  "\<exists>ys. occupy_cells (fold (aureole_cell v) cs b) = occupy_cells b @ ys"
proof (induction cs arbitrary: b)
  case Nil
  then show ?case by simp
next
  case (Cons a cs)
  from Cons.IH [of "aureole_cell v a b"] obtain ys where
    "occupy_cells (fold (aureole_cell v) cs (aureole_cell v a b))
       = occupy_cells (aureole_cell v a b) @ ys" by blast
  then show ?case by (simp add: aureole_cell_occupy)
qed

lemma aureole_appends: "\<exists>ys. occupy_cells (aureole b s v) = occupy_cells b @ ys"
  unfolding aureole_as_fold by (rule fold_aureole_appends)

lemma aureole_appends_to:
  "occupy_cells b0 = xs \<Longrightarrow> \<exists>ys. occupy_cells (aureole b0 s v) = xs @ ys"
  using aureole_appends [of b0 s v] by simp

lemma add_ship_appends: "\<exists>ys. occupy_cells (snd (add_ship b s)) = occupy_cells b @ ys"
proof (cases "list_ex (\<lambda>c. outside_board b c \<or> c \<in> set (occupy_cells b)) (cells s)")
  case True
  then show ?thesis by (simp add: add_ship_unfold)
next
  case False
  let ?b2 = "(fold (place_cell (if hide b then Space else ShipSym)) (cells s) b)
                 \<lparr>ships := ships b @ [s]\<rparr>"
  from fold_aureole_appends [of False "halo s" ?b2] obtain ys where
    "occupy_cells (fold (aureole_cell False) (halo s) ?b2) = occupy_cells ?b2 @ ys" by blast
  with False show ?thesis by (simp add: add_ship_unfold fold_place_fields)
qed

lemma shot_loop_appends:
  "\<exists>ys. occupy_cells (snd (shot_loop b c passed rest)) = occupy_cells b @ ys"
proof (induction rest arbitrary: passed)
  case Nil
  then show ?case by simp
next
  case (Cons s rest)
  show ?case
  proof (cases "c \<in> set (cells s)")
    case False
    then show ?thesis using Cons.IH by simp
  next
    case True
    then show ?thesis by (auto simp: Let_def intro!: aureole_appends_to)
  qed
qed

lemma shot_appends: "\<exists>ys. occupy_cells (snd (shot b c)) = occupy_cells b @ ys"
proof (cases "outside_board b c \<or> c \<in> set (occupy_cells b)")
  case True
  then show ?thesis by (auto simp: shot_def)
next
  case False
  let ?b1 = "b\<lparr>occupy_cells := occupy_cells b @ [c]\<rparr>"
  from shot_loop_appends [of ?b1 c "[]" "ships b"] obtain ys where
    "occupy_cells (snd (shot_loop ?b1 c [] (ships b))) = occupy_cells b @ [c] @ ys" by auto
  with False show ?thesis by (simp add: shot_def Let_def case_prod_unfold)
qed

lemma apply_op_appends:
  "op \<noteq> OpBegin \<Longrightarrow> \<exists>ys. occupy_cells (apply_op b op) = occupy_cells b @ ys"
  by (cases op) (simp_all add: add_ship_appends aureole_appends shot_appends)

text \<open>
  C7, as the code has it. Across every run of \<^verbatim>\<open>add_ship\<close>, \<^verbatim>\<open>aureole\<close>, \<^verbatim>\<open>shot\<close> and
  \<^verbatim>\<open>outside_board\<close>, whether the calls return or raise, \<^verbatim>\<open>occupy_cells\<close> only grows: the list
  after the run is the list before it with cells appended, so no cell leaves it, and a
  revealed halo adds cells and removes none. \<^verbatim>\<open>begin\<close> alone empties the list.
\<close>

theorem occupy_cells_only_grow:
  "OpBegin \<notin> set ops \<Longrightarrow>
   (\<exists>added. occupy_cells (run_ops b ops) = occupy_cells b @ added) \<and>
   occupy_cells (apply_op (run_ops b ops) OpBegin) = []"
proof (induction ops arbitrary: b)
  case Nil
  then show ?case by (simp add: run_ops_def begin_board_def)
next
  case (Cons op ops)
  then have ne: "op \<noteq> OpBegin" and rest: "OpBegin \<notin> set ops" by auto
  from apply_op_appends [OF ne, of b] obtain ys where
    ys: "occupy_cells (apply_op b op) = occupy_cells b @ ys" by blast
  from Cons.IH [OF rest, of "apply_op b op"] obtain zs where
    zs: "occupy_cells (run_ops (apply_op b op) ops) = occupy_cells (apply_op b op) @ zs"
    by blast
  have "run_ops b (op # ops) = run_ops (apply_op b op) ops" by (simp add: run_ops_def)
  with ys zs show ?case by (simp add: begin_board_def)
qed


theorem occupy_cells_only_grow_witness:
  "OpBegin \<notin> set [OpAddShip ship_a, OpShot (Cell 4 4), OpAureole ship_a True] \<and>
   (\<exists>added. occupy_cells (run_ops board5 [OpAddShip ship_a, OpShot (Cell 4 4), OpAureole ship_a True])
      = occupy_cells board5 @ added) \<and>
   occupy_cells (apply_op (run_ops board5 [OpAddShip ship_a, OpShot (Cell 4 4), OpAureole ship_a True])
      OpBegin) = []"
proof -
  have h: "OpBegin \<notin> set [OpAddShip ship_a, OpShot (Cell 4 4), OpAureole ship_a True]" by simp
  from occupy_cells_only_grow [OF h, of board5] h show ?thesis by blast
qed

text \<open>
  With \<^verbatim>\<open>begin\<close> among the operations the statement fails: the cell (0, 0) of a placed ship is in
  \<^verbatim>\<open>occupy_cells\<close>, and after \<^verbatim>\<open>begin\<close> it is not.
\<close>

theorem occupy_cells_begin_counterexample:
  "Cell 0 0 \<in> set (occupy_cells (run_ops board5 [OpAddShip ship_a])) \<and>
   Cell 0 0 \<notin> set (occupy_cells (run_ops board5 [OpAddShip ship_a, OpBegin]))"
  by code_simp

lemma shot_loop_skip:
  "\<forall>x\<in>set pre. c \<notin> set (cells x) \<Longrightarrow>
   shot_loop b c passed (pre @ rest) = shot_loop b c (passed @ pre) rest"
  by (induction pre arbitrary: passed) simp_all

lemma cells_health: "cells (s\<lparr>health := h\<rparr>) = cells s"
  by (simp add: cells_def)

lemma halo_health: "halo (s\<lparr>health := h\<rparr>) = halo s"
  by (simp add: halo_def cells_health)

lemma mask_at_cong: "mask b1 = mask b2 \<Longrightarrow> mask_at b1 x = mask_at b2 x"
  by (simp add: mask_at_def)

lemma mask_ok_cong: "mask b1 = mask b2 \<Longrightarrow> size_b b1 = size_b b2 \<Longrightarrow> mask_ok b1 = mask_ok b2"
  by (simp add: mask_ok_def)

lemma shot_unfold:
  assumes "\<not> outside_board b c" and "c \<notin> set (occupy_cells b)"
    and "ships b = pre @ s # post" and "\<forall>x\<in>set pre. c \<notin> set (cells x)"
    and "c \<in> set (cells s)"
  shows "shot b c =
     (if health s - 1 = 0
      then (Inr ([MsgHit, MsgDestroyed], True),
            fold (aureole_cell True) (halo s)
              (b\<lparr>occupy_cells := occupy_cells b @ [c],
                  ships := pre @ s\<lparr>health := health s - 1\<rparr> # post,
                  mask := mask_set (mask b) c HitX,
                  count_b := count_b b + 1\<rparr>))
      else (Inr ([MsgHit, MsgWounded], True),
            b\<lparr>occupy_cells := occupy_cells b @ [c],
               ships := pre @ s\<lparr>health := health s - 1\<rparr> # post,
               mask := mask_set (mask b) c HitX\<rparr>))"
proof -
  let ?b1 = "b\<lparr>occupy_cells := occupy_cells b @ [c]\<rparr>"
  have "shot_loop ?b1 c [] (ships ?b1) = shot_loop ?b1 c pre (s # post)"
    using shot_loop_skip [OF assms(4), of ?b1 "[]" "s # post"] assms(3) by simp
  then show ?thesis
    using assms(1,2,5)
    by (simp add: shot_def Let_def aureole_as_fold halo_health)
qed


text \<open>
  C6. A shot at a cell inside the board that is not in \<^verbatim>\<open>occupy_cells\<close> and belongs to a
  ship (the first of \<^verbatim>\<open>ships\<close> that has the cell). With health above 1 the shot reports a
  hit on a wounded ship, takes 1 from the health of that ship and of no other, and leaves
  the counter. With health 1 it reports the ship destroyed, adds 1 to the counter, and
  reveals the halo: every cell of the halo inside the board is in \<^verbatim>\<open>occupy_cells\<close>
  afterwards, and each one that was not there before shows the middle dot.
\<close>

theorem shot_hit_or_destroyed:
  assumes "mask_ok b" and "\<not> outside_board b c" and "c \<notin> set (occupy_cells b)"
    and "ships b = pre @ s # post" and "\<forall>x\<in>set pre. c \<notin> set (cells x)"
    and "c \<in> set (cells s)" and "shot b c = (r, b')"
  shows "(health s > 1 \<longrightarrow>
            r = Inr ([MsgHit, MsgWounded], True) \<and>
            ships b' = pre @ s\<lparr>health := health s - 1\<rparr> # post \<and>
            count_b b' = count_b b \<and>
            occupy_cells b' = occupy_cells b @ [c] \<and>
            mask b' = mask_set (mask b) c HitX) \<and>
         (health s = 1 \<longrightarrow>
            r = Inr ([MsgHit, MsgDestroyed], True) \<and>
            ships b' = pre @ s\<lparr>health := 0\<rparr> # post \<and>
            count_b b' = count_b b + 1 \<and>
            set (occupy_cells b') =
              set (occupy_cells b) \<union> {c} \<union> {x \<in> set (halo s). \<not> outside_board b x} \<and>
            mask_at b' c = HitX \<and>
            (\<forall>x\<in>set (halo s). \<not> outside_board b x \<and> x \<notin> set (occupy_cells b) \<and> x \<noteq> c \<longrightarrow>
                mask_at b' x = MidDot) \<and>
            (\<forall>x. \<not> outside_board b x \<and> x \<noteq> c \<and> (x \<notin> set (halo s) \<or> x \<in> set (occupy_cells b)) \<longrightarrow>
                mask_at b' x = mask_at b x))"
proof (intro conjI impI)
  assume h: "1 < health s"
  then have "health s - 1 \<noteq> 0" by simp
  with shot_unfold [OF assms(2-6)] assms(7)
  have r: "r = Inr ([MsgHit, MsgWounded], True)"
    and b': "b' = b\<lparr>occupy_cells := occupy_cells b @ [c],
               ships := pre @ s\<lparr>health := health s - 1\<rparr> # post,
               mask := mask_set (mask b) c HitX\<rparr>"
    by simp_all
  show "r = Inr ([MsgHit, MsgWounded], True)" by (rule r)
  show "ships b' = pre @ s\<lparr>health := health s - 1\<rparr> # post" by (simp add: b')
  show "count_b b' = count_b b" by (simp add: b')
  show "occupy_cells b' = occupy_cells b @ [c]" by (simp add: b')
  show "mask b' = mask_set (mask b) c HitX" by (simp add: b')
next
  assume h: "health s = 1"
  let ?b2 = "b\<lparr>occupy_cells := occupy_cells b @ [c],
                ships := pre @ s\<lparr>health := health s - 1\<rparr> # post,
                mask := mask_set (mask b) c HitX,
                count_b := count_b b + 1\<rparr>"
  from h shot_unfold [OF assms(2-6)] assms(7)
  have r: "r = Inr ([MsgHit, MsgDestroyed], True)"
    and b': "b' = fold (aureole_cell True) (halo s) ?b2"
    by simp_all
  have sz: "size_b ?b2 = size_b b" by simp
  have out: "outside_board ?b2 x = outside_board b x" for x
    by (rule outside_board_size) simp
  have ok2: "mask_ok ?b2"
    using mask_ok_set [OF assms(1), of c HitX]
    by (simp add: mask_ok_def)
  have at2: "mask_at ?b2 x = (if x = c then HitX else mask_at b x)" if "\<not> outside_board b x" for x
    using mask_at_set [OF assms(1,2) that, of HitX] by (simp add: mask_at_def)
  have at: "mask_at b' x =
      (if x \<in> set (halo s) \<and> x \<notin> set (occupy_cells ?b2) then MidDot else mask_at ?b2 x)"
    if "\<not> outside_board b x" for x
    unfolding b' using that by (intro fold_aureole_mask_at [OF ok2]) (simp add: out)
  show "r = Inr ([MsgHit, MsgDestroyed], True)" by (rule r)
  show "ships b' = pre @ s\<lparr>health := 0\<rparr> # post"
    unfolding b' using h by (simp add: fold_aureole_fields)
  show "count_b b' = count_b b + 1"
    unfolding b' by (simp add: fold_aureole_fields)
  show "set (occupy_cells b') =
      set (occupy_cells b) \<union> {c} \<union> {x \<in> set (halo s). \<not> outside_board b x}"
    unfolding b' fold_aureole_occupy by (simp add: out)
  show "mask_at b' c = HitX"
    using at [OF assms(2)] at2 [OF assms(2)] by simp
  show "\<forall>x\<in>set (halo s). \<not> outside_board b x \<and> x \<notin> set (occupy_cells b) \<and> x \<noteq> c \<longrightarrow>
      mask_at b' x = MidDot"
    using at by simp
  show "\<forall>x. \<not> outside_board b x \<and> x \<noteq> c \<and> (x \<notin> set (halo s) \<or> x \<in> set (occupy_cells b)) \<longrightarrow>
      mask_at b' x = mask_at b x"
    using at at2 by auto
qed

text \<open>
  Two shots at the ship of length 2: the first wounds it, the second destroys it and
  reveals the halo.
\<close>

theorem shot_hit_or_destroyed_witness:
  "mask_ok combat5 \<and> \<not> outside_board combat5 (Cell 0 0) \<and>
   Cell 0 0 \<notin> set (occupy_cells combat5) \<and> ships combat5 = [] @ ship_a # [] \<and>
   Cell 0 0 \<in> set (cells ship_a) \<and> health ship_a > 1 \<and>
   shot combat5 (Cell 0 0) = (Inr ([MsgHit, MsgWounded], True), combat5_hit) \<and>
   ships combat5_hit = [] @ ship_a\<lparr>health := health ship_a - 1\<rparr> # [] \<and>
   count_b combat5_hit = count_b combat5 \<and>
   occupy_cells combat5_hit = occupy_cells combat5 @ [Cell 0 0] \<and>
   mask_ok combat5_hit \<and> \<not> outside_board combat5_hit (Cell 0 1) \<and>
   Cell 0 1 \<notin> set (occupy_cells combat5_hit) \<and>
   Cell 0 1 \<in> set (cells (ship_a\<lparr>health := health ship_a - 1\<rparr>)) \<and>
   health (ship_a\<lparr>health := health ship_a - 1\<rparr>) = 1 \<and>
   fst (shot combat5_hit (Cell 0 1)) = Inr ([MsgHit, MsgDestroyed], True) \<and>
   count_b (snd (shot combat5_hit (Cell 0 1))) = count_b combat5_hit + 1 \<and>
   occupy_cells (snd (shot combat5_hit (Cell 0 1))) =
     [Cell 0 0, Cell 0 1, Cell 1 0, Cell 1 1, Cell 0 2, Cell 1 2] \<and>
   mask_at (snd (shot combat5_hit (Cell 0 1))) (Cell 0 1) = HitX \<and>
   mask_at (snd (shot combat5_hit (Cell 0 1))) (Cell 1 1) = MidDot"
proof -
  let ?s1 = "ship_a\<lparr>health := health ship_a - 1\<rparr>"
  let ?b2 = "snd (shot combat5_hit (Cell 0 1))"
  have a1: "mask_ok combat5" by code_simp
  have a2: "\<not> outside_board combat5 (Cell 0 0)" by code_simp
  have a3: "Cell 0 0 \<notin> set (occupy_cells combat5)" by (simp add: combat5_def begin_board_def)
  have a4: "ships combat5 = [] @ ship_a # []" by code_simp
  have a5: "\<forall>x\<in>set []. Cell 0 0 \<notin> set (cells x)" by simp
  have a6: "Cell 0 0 \<in> set (cells ship_a)" by (simp add: cells_ship_a)
  have a7: "shot combat5 (Cell 0 0) = (fst (shot combat5 (Cell 0 0)), combat5_hit)"
    by (simp add: combat5_hit_def)
  have h1: "health ship_a > 1" by (simp add: ship_a_def Ship_def)
  note t1 = shot_hit_or_destroyed [OF a1 a2 a3 a4 a5 a6 a7]
  from t1 h1 have r1: "fst (shot combat5 (Cell 0 0)) = Inr ([MsgHit, MsgWounded], True)"
    and s1: "ships combat5_hit = [] @ ?s1 # []"
    and c1: "count_b combat5_hit = count_b combat5"
    and o1: "occupy_cells combat5_hit = occupy_cells combat5 @ [Cell 0 0]"
    by blast+
  from r1 a7 have e1: "shot combat5 (Cell 0 0) = (Inr ([MsgHit, MsgWounded], True), combat5_hit)"
    by simp
  have b1: "mask_ok combat5_hit" by code_simp
  have b2: "\<not> outside_board combat5_hit (Cell 0 1)" by code_simp
  have b3: "Cell 0 1 \<notin> set (occupy_cells combat5_hit)"
    using o1 by (simp add: combat5_def begin_board_def)
  have b5: "\<forall>x\<in>set []. Cell 0 1 \<notin> set (cells x)" by simp
  have b6: "Cell 0 1 \<in> set (cells ?s1)" by (simp add: cells_health cells_ship_a)
  have b7: "shot combat5_hit (Cell 0 1) = (fst (shot combat5_hit (Cell 0 1)), ?b2)" by simp
  have h2: "health ?s1 = 1" by (simp add: ship_a_def Ship_def)
  note t2 = shot_hit_or_destroyed [OF b1 b2 b3 s1 b5 b6 b7]
  from t2 h2 have r2: "fst (shot combat5_hit (Cell 0 1)) = Inr ([MsgHit, MsgDestroyed], True)"
    and c2: "count_b ?b2 = count_b combat5_hit + 1"
    and m2: "mask_at ?b2 (Cell 0 1) = HitX"
    and d2: "\<forall>x\<in>set (halo ?s1). \<not> outside_board combat5_hit x \<and>
        x \<notin> set (occupy_cells combat5_hit) \<and> x \<noteq> Cell 0 1 \<longrightarrow> mask_at ?b2 x = MidDot"
    by blast+
  have k1: "Cell 1 1 \<in> set (halo ?s1)" by code_simp
  have k2: "\<not> outside_board combat5_hit (Cell 1 1)" by code_simp
  have k3: "Cell 1 1 \<notin> set (occupy_cells combat5_hit)"
    using o1 by (simp add: combat5_def begin_board_def)
  from d2 k1 k2 k3 have m3: "mask_at ?b2 (Cell 1 1) = MidDot" by simp
  have o2: "occupy_cells ?b2 = [Cell 0 0, Cell 0 1, Cell 1 0, Cell 1 1, Cell 0 2, Cell 1 2]"
    by code_simp
  show ?thesis
    by (intro conjI) (rule a1 a2 a3 a4 a6 h1 e1 s1 c1 o1 b1 b2 b3 b6 h2 r2 c2 o2 m2 m3)+
qed

lemma randint_draws:
  "randint rnd i a b = (r, i1) \<Longrightarrow>
   (case r of Inl e \<Rightarrow> i1 = i | Inr v \<Rightarrow> i1 = Suc i)"
  by (auto simp: randint_def split: if_splits)

lemma sample_ship_draws:
  assumes "sample_ship rnd i sz l = (r, i1)"
  shows "i1 \<le> i + 3 \<and> ((\<exists>s. r = Inr s) \<longrightarrow> i1 = i + 3)"
  using assms
  unfolding sample_ship_def randint_def
  by (auto split: if_splits)

lemma add_ship_error: "add_ship b s = (Inl e, b1) \<Longrightarrow> e = WrongPositionShipException"
  by (auto simp: add_ship_unfold split: if_splits)

lemma place_ship_budget:
  "place_ship rnd sz l a i b = (r, a1, i1, b1) \<Longrightarrow>
   a < a1 \<and> (a \<le> 2000 \<longrightarrow> a1 \<le> 2001) \<and>
   (r = Inr False \<longleftrightarrow> 2000 < a1) \<and>
   i1 \<le> i + 3 * (min a1 2000 - a) \<and>
   (r = Inr True \<longrightarrow> i1 = i + 3 * (a1 - a)) \<and>
   (r = Inr False \<and> a \<le> 2000 \<longrightarrow> i1 = i + 3 * (2000 - a))"
proof (induction rnd sz l a i b arbitrary: r a1 i1 b1 rule: place_ship.induct)
  case (1 rnd sz l a i b)
  show ?case
  proof (cases "Suc a > 2000")
    case True
    with "1.prems" show ?thesis by (auto simp: place_ship.simps [of rnd sz l a i b])
  next
    case False
    obtain rs i2 where ss: "sample_ship rnd i sz l = (rs, i2)" by fastforce
    note dr = sample_ship_draws [OF ss]
    show ?thesis
    proof (cases rs)
      case (Inl e)
      with "1.prems" False ss dr show ?thesis
        by (auto simp: place_ship.simps [of rnd sz l a i b])
    next
      case (Inr s)
      with dr have i2: "i2 = i + 3" by blast
      obtain ra b2 where ad: "add_ship b s = (ra, b2)" by fastforce
      show ?thesis
      proof (cases ra)
        case (Inr u)
        with "1.prems" False ss \<open>rs = Inr s\<close> ad i2 show ?thesis
          by (auto simp: place_ship.simps [of rnd sz l a i b])
      next
        case (Inl e)
        with ad have e: "e = WrongPositionShipException" by (simp add: add_ship_error)
        with "1.prems" False ss \<open>rs = Inr s\<close> ad Inl
        have rec: "place_ship rnd sz l (Suc a) i2 b2 = (r, a1, i1, b1)"
          by (simp add: place_ship.simps [of rnd sz l a i b])
        from "1.IH" [OF False ss [symmetric] \<open>rs = Inr s\<close> ad [symmetric] Inl e rec]
        have ih: "Suc a < a1 \<and> (Suc a \<le> 2000 \<longrightarrow> a1 \<le> 2001) \<and>
          (r = Inr False \<longleftrightarrow> 2000 < a1) \<and>
          i1 \<le> i2 + 3 * (min a1 2000 - Suc a) \<and>
          (r = Inr True \<longrightarrow> i1 = i2 + 3 * (a1 - Suc a)) \<and>
          (r = Inr False \<and> Suc a \<le> 2000 \<longrightarrow> i1 = i2 + 3 * (2000 - Suc a))" .
        with False i2 show ?thesis by auto
      qed
    qed
  qed
qed


lemma place_all_budget:
  "place_all rnd sz ls a i b = (r, a1, i1, b1) \<Longrightarrow> a \<le> 2000 \<Longrightarrow>
   a \<le> a1 \<and> a1 \<le> 2001 \<and>
   (r = Inr False \<longleftrightarrow> a1 = 2001) \<and>
   i1 \<le> i + 3 * (min a1 2000 - a) \<and>
   (r = Inr True \<longrightarrow> i1 = i + 3 * (a1 - a)) \<and>
   (r = Inr False \<longrightarrow> i1 = i + 3 * (2000 - a))"
proof (induction ls arbitrary: a i b)
  case Nil
  then show ?case by auto
next
  case (Cons l ls)
  obtain r2 a2 i2 b2 where ps: "place_ship rnd sz l a i b = (r2, a2, i2, b2)"
    by (metis prod_cases4)
  note pb = place_ship_budget [OF ps]
  show ?case
  proof (cases "r2 = Inr True")
    case True
    with Cons.prems(1) ps have rec: "place_all rnd sz ls a2 i2 b2 = (r, a1, i1, b1)" by simp
    from pb True have a2: "a2 \<le> 2000" "a < a2" "i2 = i + 3 * (a2 - a)" by auto
    from Cons.IH [OF rec a2(1)] a2 show ?thesis by auto
  next
    case False
    with Cons.prems(1) ps have eq: "r = r2" "a1 = a2" "i1 = i2" "b1 = b2"
      by (cases r2; auto)+
    from pb Cons.prems(2) False show ?thesis unfolding eq by (cases r2) auto
  qed
qed

lemma Board_total: "\<exists>b. Board hide_flag sz = Inr b"
  by (simp add: Board_def)

text \<open>
  C8. A pass of \<^verbatim>\<open>random_place\<close> always ends (the functions of the pass are total: the
  counter \<^verbatim>\<open>attempts\<close> is the measure). The counter is set once and shared by all ships:
  it leaves the pass at 2001 at most, a sample is drawn only while it is at most 2000, so
  a pass draws at most 3 * 2000 random numbers, and the pass reports failure exactly when
  the counter has passed 2000. \<^verbatim>\<open>random_board\<close> returns the board of a successful pass and
  after a failed pass runs the next one, on a new board.
\<close>

theorem random_place_shared_budget:
  assumes "random_place rnd i sz hide_flag = (r, i1)"
  shows "pass_attempts rnd i sz hide_flag \<le> 2001 \<and>
         ((\<exists>b. r = Inr (False, b)) \<longleftrightarrow> pass_attempts rnd i sz hide_flag = 2001) \<and>
         i1 \<le> i + 3 * min (pass_attempts rnd i sz hide_flag) 2000 \<and>
         random_board rnd sz hide_flag i =
           (case r of
              Inl e \<Rightarrow> Some (Inl e, i1)
            | Inr (ok, b) \<Rightarrow> if ok then Some (Inr b, i1) else random_board rnd sz hide_flag i1)"
proof -
  obtain b0 where b0: "Board hide_flag sz = Inr b0" using Board_total by blast
  obtain res a1 i2 b1 where
    pa: "place_all rnd (sz - 1) (placement_catalog sz) 0 i b0 = (res, a1, i2, b1)"
    by (metis prod_cases4)
  from place_all_budget [OF pa] have
    bd: "a1 \<le> 2001" "res = Inr False \<longleftrightarrow> a1 = 2001" "i2 \<le> i + 3 * (min a1 2000 - 0)"
    by simp_all
  have att: "pass_attempts rnd i sz hide_flag = a1"
    by (simp add: pass_attempts_def b0 pa)
  have rp: "(r, i1) =
      (case res of Inl e \<Rightarrow> (Inl e, i2)
       | Inr ok \<Rightarrow> if ok then (Inr (True, begin_board b1), i2) else (Inr (False, b1), i2))"
    using assms by (simp add: random_place_def b0 pa split: sum.splits bool.splits)
  have k1: "pass_attempts rnd i sz hide_flag \<le> 2001" using att bd(1) by simp
  have k2: "(\<exists>b. r = Inr (False, b)) \<longleftrightarrow> pass_attempts rnd i sz hide_flag = 2001"
    using rp bd(2) att by (cases res) (auto split: if_splits)
  have "i1 = i2" using rp by (cases res) (auto split: if_splits)
  then have k3: "i1 \<le> i + 3 * min (pass_attempts rnd i sz hide_flag) 2000"
    using bd(3) att by simp
  have k4: "random_board rnd sz hide_flag i =
           (case r of
              Inl e \<Rightarrow> Some (Inl e, i1)
            | Inr (ok, b) \<Rightarrow> if ok then Some (Inr b, i1) else random_board rnd sz hide_flag i1)"
    by (subst random_board.simps) (simp add: assms split: sum.splits)
  from k1 k2 k3 k4 show ?thesis by blast
qed


text \<open>
  A pass on a board of size 6: eight samples place the seven ships, and \<^verbatim>\<open>random_board\<close>
  returns the board of this pass.
\<close>

theorem random_place_shared_budget_witness:
  "\<exists>b. random_place rnd_six 0 6 False = (Inr (True, b), 24) \<and>
       map length_ship (ships b) = [3, 2, 2, 1, 1, 1, 1] \<and>
       pass_attempts rnd_six 0 6 False = 8 \<and>
       pass_attempts rnd_six 0 6 False \<le> 2001 \<and>
       24 \<le> 0 + 3 * min (pass_attempts rnd_six 0 6 False) 2000 \<and>
       random_board rnd_six 6 False 0 = Some (Inr b, 24)"
proof -
  have s1: "snd (random_place rnd_six 0 6 False) = 24" by code_simp
  have s2: "pass_attempts rnd_six 0 6 False = 8" by code_simp
  have s3: "(case fst (random_place rnd_six 0 6 False) of
       Inr (ok, b) \<Rightarrow> ok \<and> map length_ship (ships b) = [3, 2, 2, 1, 1, 1, 1]
     | Inl e \<Rightarrow> False)"
    by code_simp
  then obtain b where f: "fst (random_place rnd_six 0 6 False) = Inr (True, b)"
    and l: "map length_ship (ships b) = [3, 2, 2, 1, 1, 1, 1]"
    by (auto split: sum.splits)
  from f s1 have e: "random_place rnd_six 0 6 False = (Inr (True, b), 24)"
    by (metis prod.collapse)
  from random_place_shared_budget [OF e] have
    t1: "pass_attempts rnd_six 0 6 False \<le> 2001" and
    t2: "24 \<le> 0 + 3 * min (pass_attempts rnd_six 0 6 False) 2000" and
    t3: "random_board rnd_six 6 False 0 = Some (Inr b, 24)"
    by simp_all
  show ?thesis
    by (intro exI [of _ b] conjI) (rule e l s2 t1 t2 t3)+
qed

end
